theory Spec2Isabelle
  imports Main
begin

section \<open>Constants\<close>

text \<open>
  \<^verbatim>\<open>const ONE_MONTH = 30 * 24 * 60 * 60 * 1000;\<close>
  \<^verbatim>\<open>const LIFETIME_UNTIL = 32503680000000; // Year 3000\<close>
  Timestamps are milliseconds since the epoch. They are JavaScript numbers in the source;
  every value the program computes from them is a sum of two integers far below \<open>2 ^ 53\<close>,
  so they are modelled as \<open>int\<close>.
\<close>

definition ONE_MONTH :: int where
  "ONE_MONTH = 30 * 24 * 60 * 60 * 1000"

definition LIFETIME_UNTIL :: int where
  "LIFETIME_UNTIL = 32503680000000"

section \<open>Strings of the roster\<close>

text \<open>
  A JavaScript string is a sequence of UTF-16 code units; the model has it as the list of
  their numbers. \<open>js\<close> writes an ASCII literal of the source as such a list.
\<close>

type_synonym jstring = "nat list"

definition js :: "string \<Rightarrow> jstring" where
  "js s = map of_char s"

text \<open>
  \<open>String.prototype.trim\<close> removes, at both ends, the code units that ECMAScript counts
  as white space or as line terminators: TAB, LF, VT, FF, CR, SPACE, U+00A0, U+1680,
  U+2000 to U+200A, U+2028, U+2029, U+202F, U+205F, U+3000 and U+FEFF.
\<close>

definition js_whitespace :: "nat \<Rightarrow> bool" where
  "js_whitespace c =
     (c \<in> set [0x0009, 0x000A, 0x000B, 0x000C, 0x000D, 0x0020, 0x00A0, 0x1680,
                0x2000, 0x2001, 0x2002, 0x2003, 0x2004, 0x2005, 0x2006, 0x2007,
                0x2008, 0x2009, 0x200A, 0x2028, 0x2029, 0x202F, 0x205F, 0x3000, 0xFEFF])"

definition trim :: "jstring \<Rightarrow> jstring" where
  "trim s = rev (dropWhile js_whitespace (rev (dropWhile js_whitespace s)))"

text \<open>
  \<open>String.prototype.toLowerCase\<close> and \<open>toUpperCase\<close> are the case mappings of the
  runtime's Unicode tables. The model does not fix them: they are part of the world (see
  below), and every statement holds for whatever mappings the runtime has.
\<close>

text \<open>\<^verbatim>\<open>headers.indexOf(x)\<close>: the first position of \<open>x\<close>, \<open>None\<close> for \<open>-1\<close>.\<close>

fun indexOf :: "'a list \<Rightarrow> 'a \<Rightarrow> nat option" where
  "indexOf [] x = None"
| "indexOf (y # ys) x =
     (if y = x then Some 0 else (case indexOf ys x of None \<Rightarrow> None | Some i \<Rightarrow> Some (Suc i)))"

text \<open>\<^verbatim>\<open>(row[i] || "")\<close>: a cell past the end of a ragged row is \<open>undefined\<close>, read as the empty string.\<close>

definition cell :: "jstring list \<Rightarrow> nat \<Rightarrow> jstring" where
  "cell row i = (if i < length row then row ! i else [])"

section \<open>Errors\<close>

text \<open>Every \<open>throw\<close> and every rejected promise that the source does not catch.\<close>

datatype error =
    GuildFetchFailed
  | SheetFetchFailed
  | DiscordIdColumnNotFound
  | LifetimeVipColumnNotFound
  | VipRoleNotFound
  | RoleAddRejected jstring

section \<open>Roster ingestor\<close>

text \<open>
  A JavaScript \<open>Map\<close> keeps its keys in insertion order and \<open>set\<close> on a key that is
  present overwrites the value in place. It is an association list with distinct keys.
\<close>

type_synonym eligibility = "(jstring \<times> bool) list"

fun map_set :: "'k \<Rightarrow> 'v \<Rightarrow> ('k \<times> 'v) list \<Rightarrow> ('k \<times> 'v) list" where
  "map_set k v [] = [(k, v)]"
| "map_set k v ((k', v') # kvs) =
     (if k' = k then (k, v) # kvs else (k', v') # map_set k v kvs)"

text \<open>
  The loop over the data rows of \<open>getEligibilityMap\<close>:
  \<^verbatim>\<open>
  const id = (row[discordIdx] || "").toString().trim();
  if (!id) continue;
  const val = (row[lifetimeIdx] || "").toString().trim().toUpperCase();
  const approved = val === "YES";
  map.set(id, approved);
  \<close>
\<close>

fun eligibility_rows ::
    "(jstring \<Rightarrow> jstring) \<Rightarrow> nat \<Rightarrow> nat \<Rightarrow> jstring list list \<Rightarrow> eligibility \<Rightarrow> eligibility" where
  "eligibility_rows upper discordIdx lifetimeIdx [] m = m"
| "eligibility_rows upper discordIdx lifetimeIdx (row # rows) m =
     (let id = trim (cell row discordIdx) in
      if id = [] then eligibility_rows upper discordIdx lifetimeIdx rows m
      else
        let val = upper (trim (cell row lifetimeIdx));
            approved = (val = js ''YES'')
        in eligibility_rows upper discordIdx lifetimeIdx rows (map_set id approved m))"

text \<open>
  \<open>getEligibilityMap\<close> on the rows that \<open>getSheetRows\<close> returned, with the two case
  mappings of the runtime. A roster with fewer than two rows gives the empty map before
  the headers are looked at.
\<close>

definition eligibility_of_rows ::
    "(jstring \<Rightarrow> jstring) \<Rightarrow> (jstring \<Rightarrow> jstring) \<Rightarrow> jstring list list \<Rightarrow> error + eligibility" where
  "eligibility_of_rows lower upper rows =
     (if length rows < 2 then Inr []
      else
        let headers = map (\<lambda>h. trim (lower h)) (hd rows);
            discordIdx = indexOf headers (js ''discord_id'');
            lifetimeIdx = indexOf headers (js ''lifetime_vip'')
        in case discordIdx of
             None \<Rightarrow> Inl DiscordIdColumnNotFound
           | Some di \<Rightarrow>
               (case lifetimeIdx of
                  None \<Rightarrow> Inl LifetimeVipColumnNotFound
                | Some li \<Rightarrow> Inr (eligibility_rows upper di li (tl rows) [])))"

section \<open>Entitlement store\<close>

text \<open>
  Table \<open>vip_users (user_id TEXT PRIMARY KEY, vip_until INTEGER, trial_until INTEGER)\<close>.
  Both integer columns are nullable; \<open>None\<close> is SQL \<open>NULL\<close>. The table is the list of its
  rows in scan order.
\<close>

record vip_row =
  vip_until :: "int option"
  trial_until :: "int option"

type_synonym vip_users = "(jstring \<times> vip_row) list"

text \<open>\<^verbatim>\<open>x || 0\<close> on a nullable number.\<close>

definition or0 :: "int option \<Rightarrow> int" where
  "or0 x = (case x of None \<Rightarrow> 0 | Some v \<Rightarrow> v)"

text \<open>\<^verbatim>\<open>SELECT ... FROM vip_users WHERE user_id=?\<close> through \<open>dbGet\<close>: the first matching row.\<close>

definition select_user :: "vip_users \<Rightarrow> jstring \<Rightarrow> vip_row option" where
  "select_user tbl uid = map_of tbl uid"

text \<open>
  \<^verbatim>\<open>INSERT OR REPLACE INTO vip_users (user_id, vip_until, trial_until) VALUES (?, ?, ?)\<close>:
  the row with that key, if any, is deleted and the new row is inserted.
\<close>

definition insert_or_replace :: "jstring \<Rightarrow> int \<Rightarrow> int \<Rightarrow> vip_users \<Rightarrow> vip_users" where
  "insert_or_replace uid v t tbl =
     filter (\<lambda>kr. fst kr \<noteq> uid) tbl @ [(uid, \<lparr>vip_until = Some v, trial_until = Some t\<rparr>)]"

text \<open>\<^verbatim>\<open>UPDATE vip_users SET trial_until=? WHERE user_id=?\<close>\<close>

definition update_trial_until :: "jstring \<Rightarrow> int \<Rightarrow> vip_users \<Rightarrow> vip_users" where
  "update_trial_until uid t tbl =
     map (\<lambda>kr. if fst kr = uid then (fst kr, (snd kr)\<lparr>trial_until := Some t\<rparr>) else kr) tbl"

section \<open>The world the engine runs in\<close>

text \<open>
  Everything the engine reads or changes: the table, the roster the sheet request
  returns, the guild (who is a member, when each joined, who holds the VIP role on the
  platform), the client's cached member objects, which role changes the platform rejects,
  the clock, the case mappings of the runtime, and the lock \<open>syncRunning\<close>.
  A member object is identified by its id. Database statements succeed (the store of the
  spec: \<open>get\<close> gives a record or absent, \<open>upsert\<close> succeeds).
  \<open>Date.now()\<close> is the next reading of the clock: \<open>clock w n\<close> is the n-th reading.

  \<open>vip_role\<close> is the set of members that hold the role on the platform. \<open>role_cache\<close> is
  the set of members whose cached member object lists the role: it is what
  \<^verbatim>\<open>member.roles.cache.has(role.id)\<close> reads. \<open>guild.members.fetch\<close> hands out the cached
  object (made from the platform's data when a member is fetched for the first time,
  which is before any role change the engine makes for that member), and \<open>roles.add\<close> and
  \<open>roles.remove\<close> send the change to the platform and return a changed copy of the
  member, which the engine drops: they change \<open>vip_role\<close> and leave the cached object,
  hence \<open>role_cache\<close>, as it is. The cache follows the platform through the gateway's
  member-update events, which the client library handles outside the calls of the engine;
  no operation of the engine writes it.

  The result of a call is that of running it from its first statement to its last with
  no other handler changing the world in between. The worlds it passes through on the
  way, which are what a handler that runs at one of its \<open>await\<close>s finds, are listed by the
  functions of the section on the worlds of a pass; a call that arrives while a pass is
  running is a call in one of those worlds.
\<close>

record world =
  db :: vip_users
  sheet :: "jstring list list option"
  guild_ok :: bool
  vip_role_ok :: bool
  guild_members :: "jstring set"
  joinedTimestamp :: "jstring \<Rightarrow> int option"
  vip_role :: "jstring set"
  role_cache :: "jstring set"
  add_rejected :: "jstring set"
  remove_rejected :: "jstring set"
  clock :: "nat \<Rightarrow> int"
  ticks :: nat
  toLowerCase :: "jstring \<Rightarrow> jstring"
  toUpperCase :: "jstring \<Rightarrow> jstring"
  syncRunning :: bool

definition Date_now :: "world \<Rightarrow> int \<times> world" where
  "Date_now w = (clock w (ticks w), w\<lparr>ticks := Suc (ticks w)\<rparr>)"

text \<open>\<open>getSheetRows\<close> and \<open>getEligibilityMap\<close>: \<open>sheet w = None\<close> is a failed request.\<close>

definition getEligibilityMap :: "world \<Rightarrow> error + eligibility" where
  "getEligibilityMap w =
     (case sheet w of
        None \<Rightarrow> Inl SheetFetchFailed
      | Some rows \<Rightarrow> eligibility_of_rows (toLowerCase w) (toUpperCase w) rows)"

text \<open>\<open>getVipRole\<close>: throws when the role is not in the guild's role cache.\<close>

definition getVipRole :: "world \<Rightarrow> error + unit" where
  "getVipRole w = (if vip_role_ok w then Inr () else Inl VipRoleNotFound)"

text \<open>\<open>fetchMemberSafe\<close>: \<open>null\<close> when the fetch fails.\<close>

definition fetchMemberSafe :: "world \<Rightarrow> jstring \<Rightarrow> jstring option" where
  "fetchMemberSafe w userId = (if userId \<in> guild_members w then Some userId else None)"

text \<open>
  \<^verbatim>\<open>await member.roles.add(role)\<close>: a rejection is thrown on; otherwise the member holds
  the role on the platform.
\<close>

definition roles_add :: "jstring \<Rightarrow> world \<Rightarrow> (error + unit) \<times> world" where
  "roles_add member w =
     (if member \<in> add_rejected w then (Inl (RoleAddRejected member), w)
      else (Inr (), w\<lparr>vip_role := insert member (vip_role w)\<rparr>))"

text \<open>\<^verbatim>\<open>await member.roles.remove(role).catch(() => {})\<close>: a rejection is swallowed.\<close>

definition roles_remove_caught :: "jstring \<Rightarrow> world \<Rightarrow> world" where
  "roles_remove_caught member w =
     (if member \<in> remove_rejected w then w
      else w\<lparr>vip_role := vip_role w - {member}\<rparr>)"

section \<open>Trial lifecycle\<close>

text \<open>
  \<open>ensureTrialRecordFor\<close> returns \<open>(vip_until, trial_until)\<close>.
  \<^verbatim>\<open>member.joinedTimestamp || Date.now()\<close> reads the clock only when the timestamp is
  null or 0, and \<^verbatim>\<open>row.vip_until && row.vip_until > Date.now() && ...\<close> only when
  \<open>vip_until\<close> is neither.
\<close>

definition ensureTrialRecordFor :: "jstring \<Rightarrow> world \<Rightarrow> (int \<times> int) \<times> world" where
  "ensureTrialRecordFor member w =
     (let row = select_user (db w) member;
          (joinedTs, w1) =
             (if or0 (joinedTimestamp w member) \<noteq> 0 then (or0 (joinedTimestamp w member), w)
              else Date_now w);
          fallbackTrialUntil = joinedTs + ONE_MONTH
      in case row of
           None \<Rightarrow>
             ((fallbackTrialUntil, fallbackTrialUntil),
              w1\<lparr>db := insert_or_replace member fallbackTrialUntil fallbackTrialUntil (db w1)\<rparr>)
         | Some r \<Rightarrow>
             if or0 (trial_until r) = 0 then
               let (trialUntil, w2) =
                     (if or0 (vip_until r) \<noteq> 0 then
                        let (now, w2) = Date_now w1 in
                        (if or0 (vip_until r) > now \<and> or0 (vip_until r) < LIFETIME_UNTIL
                         then or0 (vip_until r) else fallbackTrialUntil, w2)
                      else (fallbackTrialUntil, w1))
               in ((or0 (vip_until r), trialUntil),
                   w2\<lparr>db := update_trial_until member trialUntil (db w2)\<rparr>)
             else ((or0 (vip_until r), or0 (trial_until r)), w1))"


section \<open>Per-member operations of the engine\<close>

definition setVipLifetime :: "jstring \<Rightarrow> world \<Rightarrow> (error + unit) \<times> world" where
  "setVipLifetime member w =
     (case getVipRole w of
        Inl e \<Rightarrow> (Inl e, w)
      | Inr role \<Rightarrow>
          (case roles_add member w of
             (Inl e, w1) \<Rightarrow> (Inl e, w1)
           | (Inr u, w1) \<Rightarrow>
               let (existing, w2) = ensureTrialRecordFor member w1;
                   (trialUntil, w3) =
                      (if snd existing \<noteq> 0 then (snd existing, w2)
                       else let (now, w3) = Date_now w2 in (now + ONE_MONTH, w3))
               in (Inr (),
                   w3\<lparr>db := insert_or_replace member LIFETIME_UNTIL trialUntil (db w3)\<rparr>)))"

text \<open>Returns \<open>(keptTrial, trialUntil)\<close>.\<close>

definition setVipToTrialRemainingOrRemove ::
    "jstring \<Rightarrow> world \<Rightarrow> (error + bool \<times> int) \<times> world" where
  "setVipToTrialRemainingOrRemove member w =
     (case getVipRole w of
        Inl e \<Rightarrow> (Inl e, w)
      | Inr role \<Rightarrow>
          let (existing, w1) = ensureTrialRecordFor member w;
              trialUntil = snd existing;
              (now, w2) = Date_now w1
          in if trialUntil > now then
               (case roles_add member w2 of
                  (Inl e, w3) \<Rightarrow> (Inl e, w3)
                | (Inr u, w3) \<Rightarrow>
                    (Inr (True, trialUntil),
                     w3\<lparr>db := insert_or_replace member trialUntil trialUntil (db w3)\<rparr>))
             else
               let w3 = (if member \<in> role_cache w2 then roles_remove_caught member w2 else w2)
               in (Inr (False, trialUntil),
                   w3\<lparr>db := insert_or_replace member 0 trialUntil (db w3)\<rparr>))"

definition removeVipIfHas :: "jstring \<Rightarrow> world \<Rightarrow> (error + unit) \<times> world" where
  "removeVipIfHas member w =
     (case getVipRole w of
        Inl e \<Rightarrow> (Inl e, w)
      | Inr role \<Rightarrow>
          (Inr (), if member \<in> role_cache w then roles_remove_caught member w else w))"

section \<open>Reconciliation pass\<close>

text \<open>\<open>new Set(xs)\<close>: the elements in order of first occurrence.\<close>

definition js_set :: "'a list \<Rightarrow> 'a list" where
  "js_set xs = rev (remdups (rev xs))"

record summary =
  lifetimeEnsured :: nat
  lifetimeDowngraded :: nat
  expiredRemoved :: nat
  ms :: int
  totalSheet :: nat

datatype sync_result = Skipped | Completed summary

text \<open>
  Phase 1: \<^verbatim>\<open>for (const [userId, approved] of eligibility.entries())\<close>.
  In each loop \<open>n\<close> is the counter that the source increments.
\<close>

fun grant_loop :: "eligibility \<Rightarrow> nat \<Rightarrow> world \<Rightarrow> (error + nat) \<times> world" where
  "grant_loop [] n w = (Inr n, w)"
| "grant_loop ((userId, approved) # es) n w =
     (if \<not> approved then grant_loop es n w
      else
        case fetchMemberSafe w userId of
          None \<Rightarrow> grant_loop es n w
        | Some member \<Rightarrow>
            (case setVipLifetime member w of
               (Inl e, w1) \<Rightarrow> (Inl e, w1)
             | (Inr u, w1) \<Rightarrow> grant_loop es (Suc n) w1))"

text \<open>Phase 2: \<^verbatim>\<open>for (const userId of lifetimeInDb)\<close>.\<close>

fun downgrade_loop ::
    "jstring list \<Rightarrow> eligibility \<Rightarrow> nat \<Rightarrow> world \<Rightarrow> (error + nat) \<times> world" where
  "downgrade_loop [] eligibility n w = (Inr n, w)"
| "downgrade_loop (userId # us) eligibility n w =
     (let approved = (map_of eligibility userId = Some True) in
      if approved then downgrade_loop us eligibility n w
      else
        case fetchMemberSafe w userId of
          None \<Rightarrow> downgrade_loop us eligibility n w
        | Some member \<Rightarrow>
            (case setVipToTrialRemainingOrRemove member w of
               (Inl e, w1) \<Rightarrow> (Inl e, w1)
             | (Inr kept, w1) \<Rightarrow> downgrade_loop us eligibility (Suc n) w1))"

text \<open>Phase 3: \<^verbatim>\<open>for (const r of dbRows)\<close>, over the rows read before phase 1.\<close>

fun expiry_loop :: "vip_users \<Rightarrow> nat \<Rightarrow> world \<Rightarrow> (error + nat) \<times> world" where
  "expiry_loop [] n w = (Inr n, w)"
| "expiry_loop (r # rs) n w =
     (let vipUntil = or0 (vip_until (snd r)) in
      if vipUntil = 0 then expiry_loop rs n w
      else if vipUntil \<ge> LIFETIME_UNTIL then expiry_loop rs n w
      else
        let (now, w1) = Date_now w in
        if vipUntil > now then expiry_loop rs n w1
        else
          case fetchMemberSafe w1 (fst r) of
            None \<Rightarrow> expiry_loop rs n w1
          | Some member \<Rightarrow>
              (case removeVipIfHas member w1 of
                 (Inl e, w2) \<Rightarrow> (Inl e, w2)
               | (Inr u, w2) \<Rightarrow> expiry_loop rs (Suc n) w2))"

text \<open>The body of \<open>syncFromSheetOptimised\<close> between taking the lock and releasing it.\<close>

definition sync_pass :: "world \<Rightarrow> (error + summary) \<times> world" where
  "sync_pass w0 =
     (let (started, w) = Date_now w0 in
      if \<not> guild_ok w then (Inl GuildFetchFailed, w)
      else
        case getEligibilityMap w of
          Inl e \<Rightarrow> (Inl e, w)
        | Inr eligibility \<Rightarrow>
            let dbRows = db w;
                lifetimeInDb =
                  js_set (map fst (filter (\<lambda>r. or0 (vip_until (snd r)) \<ge> LIFETIME_UNTIL) dbRows))
            in case grant_loop eligibility 0 w of
                 (Inl e, w1) \<Rightarrow> (Inl e, w1)
               | (Inr ensured, w1) \<Rightarrow>
                   (case downgrade_loop lifetimeInDb eligibility 0 w1 of
                      (Inl e, w2) \<Rightarrow> (Inl e, w2)
                    | (Inr downgraded, w2) \<Rightarrow>
                        (case expiry_loop dbRows 0 w2 of
                           (Inl e, w3) \<Rightarrow> (Inl e, w3)
                         | (Inr removed, w3) \<Rightarrow>
                             let (finished, w4) = Date_now w3 in
                             (Inr \<lparr>lifetimeEnsured = ensured,
                                   lifetimeDowngraded = downgraded,
                                   expiredRemoved = removed,
                                   ms = finished - started,
                                   totalSheet = length eligibility\<rparr>, w4))))"

section \<open>The worlds of a pass\<close>

text \<open>
  The pass is asynchronous: at each \<open>await\<close> other handlers may run, and they find the
  world as the pass has left it so far. For every operation of the pass the function
  with the suffix \<open>_worlds\<close> lists these worlds in order: the world after each awaited call
  that can change it (a role change, \<open>ensureTrialRecordFor\<close>, a database write) and, in the
  loops and the pass itself, the world after each reading of the clock. Each function
  follows the control flow of the operation it belongs to.
\<close>

definition setVipLifetime_worlds :: "jstring \<Rightarrow> world \<Rightarrow> world list" where
  "setVipLifetime_worlds member w =
     (case getVipRole w of
        Inl e \<Rightarrow> []
      | Inr role \<Rightarrow>
          (case roles_add member w of
             (Inl e, w1) \<Rightarrow> [w1]
           | (Inr u, w1) \<Rightarrow>
               [w1, snd (ensureTrialRecordFor member w1), snd (setVipLifetime member w)]))"

definition setVipToTrialRemainingOrRemove_worlds :: "jstring \<Rightarrow> world \<Rightarrow> world list" where
  "setVipToTrialRemainingOrRemove_worlds member w =
     (case getVipRole w of
        Inl e \<Rightarrow> []
      | Inr role \<Rightarrow>
          let (existing, w1) = ensureTrialRecordFor member w;
              trialUntil = snd existing;
              (now, w2) = Date_now w1
          in if trialUntil > now then
               (case roles_add member w2 of
                  (Inl e, w3) \<Rightarrow> [w1, w3]
                | (Inr u, w3) \<Rightarrow> [w1, w3, snd (setVipToTrialRemainingOrRemove member w)])
             else
               let w3 = (if member \<in> role_cache w2 then roles_remove_caught member w2 else w2)
               in [w1, w3, snd (setVipToTrialRemainingOrRemove member w)])"

definition removeVipIfHas_worlds :: "jstring \<Rightarrow> world \<Rightarrow> world list" where
  "removeVipIfHas_worlds member w =
     (case getVipRole w of
        Inl e \<Rightarrow> []
      | Inr role \<Rightarrow> [snd (removeVipIfHas member w)])"

fun grant_loop_worlds :: "eligibility \<Rightarrow> world \<Rightarrow> world list" where
  "grant_loop_worlds [] w = []"
| "grant_loop_worlds ((userId, approved) # es) w =
     (if \<not> approved then grant_loop_worlds es w
      else
        case fetchMemberSafe w userId of
          None \<Rightarrow> grant_loop_worlds es w
        | Some member \<Rightarrow>
            setVipLifetime_worlds member w @
            (case setVipLifetime member w of
               (Inl e, w1) \<Rightarrow> []
             | (Inr u, w1) \<Rightarrow> grant_loop_worlds es w1))"

fun downgrade_loop_worlds :: "jstring list \<Rightarrow> eligibility \<Rightarrow> world \<Rightarrow> world list" where
  "downgrade_loop_worlds [] eligibility w = []"
| "downgrade_loop_worlds (userId # us) eligibility w =
     (let approved = (map_of eligibility userId = Some True) in
      if approved then downgrade_loop_worlds us eligibility w
      else
        case fetchMemberSafe w userId of
          None \<Rightarrow> downgrade_loop_worlds us eligibility w
        | Some member \<Rightarrow>
            setVipToTrialRemainingOrRemove_worlds member w @
            (case setVipToTrialRemainingOrRemove member w of
               (Inl e, w1) \<Rightarrow> []
             | (Inr kept, w1) \<Rightarrow> downgrade_loop_worlds us eligibility w1))"

fun expiry_loop_worlds :: "vip_users \<Rightarrow> world \<Rightarrow> world list" where
  "expiry_loop_worlds [] w = []"
| "expiry_loop_worlds (r # rs) w =
     (let vipUntil = or0 (vip_until (snd r)) in
      if vipUntil = 0 then expiry_loop_worlds rs w
      else if vipUntil \<ge> LIFETIME_UNTIL then expiry_loop_worlds rs w
      else
        let (now, w1) = Date_now w in
        w1 #
        (if vipUntil > now then expiry_loop_worlds rs w1
         else
           case fetchMemberSafe w1 (fst r) of
             None \<Rightarrow> expiry_loop_worlds rs w1
           | Some member \<Rightarrow>
               removeVipIfHas_worlds member w1 @
               (case removeVipIfHas member w1 of
                  (Inl e, w2) \<Rightarrow> []
                | (Inr u, w2) \<Rightarrow> expiry_loop_worlds rs w2)))"

definition sync_pass_worlds :: "world \<Rightarrow> world list" where
  "sync_pass_worlds w0 =
     (let (started, w) = Date_now w0 in
      w #
      (if \<not> guild_ok w then []
       else
         case getEligibilityMap w of
           Inl e \<Rightarrow> []
         | Inr eligibility \<Rightarrow>
             let dbRows = db w;
                 lifetimeInDb =
                   js_set (map fst (filter (\<lambda>r. or0 (vip_until (snd r)) \<ge> LIFETIME_UNTIL) dbRows))
             in grant_loop_worlds eligibility w @
                (case grant_loop eligibility 0 w of
                   (Inl e, w1) \<Rightarrow> []
                 | (Inr ensured, w1) \<Rightarrow>
                     downgrade_loop_worlds lifetimeInDb eligibility w1 @
                     (case downgrade_loop lifetimeInDb eligibility 0 w1 of
                        (Inl e, w2) \<Rightarrow> []
                      | (Inr downgraded, w2) \<Rightarrow>
                          expiry_loop_worlds dbRows w2 @
                          (case expiry_loop dbRows 0 w2 of
                             (Inl e, w3) \<Rightarrow> []
                           | (Inr removed, w3) \<Rightarrow> [snd (Date_now w3)])))))"

section \<open>The guarded pass\<close>

text \<open>
  \<open>syncFromSheetOptimised\<close>: the lock test, then the pass inside \<open>try ... finally\<close>.
  \<open>Inl e\<close> is the error the call throws to its caller. \<open>syncFromSheetOptimised_run\<close>
  returns the result of the call together with the worlds the call passes through: none
  when it is skipped; otherwise the world in which the lock has just been taken (the test
  and \<^verbatim>\<open>syncRunning = true\<close> run without an \<open>await\<close> between them), the worlds of the
  pass, and last the world that \<open>finally\<close> leaves. \<open>syncFromSheetOptimised\<close> is the call as
  a function of the world: the result and the last of these worlds.
\<close>

definition syncFromSheetOptimised_run :: "world \<Rightarrow> (error + sync_result) \<times> world list" where
  "syncFromSheetOptimised_run w =
     (if syncRunning w then (Inr Skipped, [])
      else
        let locked = w\<lparr>syncRunning := True\<rparr>;
            (r, w1) = sync_pass locked
        in (case r of Inl e \<Rightarrow> Inl e | Inr s \<Rightarrow> Inr (Completed s),
            locked # sync_pass_worlds locked @ [w1\<lparr>syncRunning := False\<rparr>]))"

definition syncFromSheetOptimised :: "world \<Rightarrow> (error + sync_result) \<times> world" where
  "syncFromSheetOptimised w =
     (let (r, ws) = syncFromSheetOptimised_run w in (r, last (w # ws)))"

section \<open>Status query\<close>



section \<open>Hourly cleanup\<close>

text \<open>
  The second \<open>cron.schedule\<close> callback. Its rows come from
  \<^verbatim>\<open>SELECT user_id, vip_until FROM vip_users\<close>; an error is caught and logged, which the
  model returns as \<open>Some e\<close>.
\<close>

fun cleanup_loop :: "(jstring \<times> int option) list \<Rightarrow> world \<Rightarrow> error option \<times> world" where
  "cleanup_loop [] w = (None, w)"
| "cleanup_loop (r # rs) w =
     (let vipUntil = or0 (snd r) in
      if vipUntil = 0 then cleanup_loop rs w
      else if vipUntil \<ge> LIFETIME_UNTIL then cleanup_loop rs w
      else
        let (now, w1) = Date_now w in
        if vipUntil > now then cleanup_loop rs w1
        else
          case fetchMemberSafe w1 (fst r) of
            None \<Rightarrow> cleanup_loop rs w1
          | Some member \<Rightarrow>
              (case removeVipIfHas member w1 of
                 (Inl e, w2) \<Rightarrow> (Some e, w2)
               | (Inr u, w2) \<Rightarrow> cleanup_loop rs w2))"

definition hourly_cleanup :: "world \<Rightarrow> error option \<times> world" where
  "hourly_cleanup w =
     (if \<not> guild_ok w then (Some GuildFetchFailed, w)
      else
        let dbRows = map (\<lambda>kr. (fst kr, vip_until (snd kr))) (db w)
        in cleanup_loop dbRows w)"

section \<open>Notions used in the statements\<close>

text \<open>What a caller that catches and logs sees of a run: the error, if any, and the world.\<close>

definition logged :: "(error + 'a) \<times> world \<Rightarrow> error option \<times> world" where
  "logged r = (case fst r of Inl e \<Rightarrow> Some e | Inr x \<Rightarrow> None, snd r)"

text \<open>
  The part of the world that no operation of the engine writes: the world with the
  table, the holders of the role on the platform, the clock's position and the lock
  blanked.
\<close>

definition env :: "world \<Rightarrow> world" where
  "env w = w\<lparr>db := [], vip_role := {}, ticks := 0, syncRunning := False\<rparr>"

text \<open>
  The stored \<open>vipUntil\<close> of a member as every comparison of the source reads it: a
  missing record and a null column count as 0.
\<close>

definition stored_vip :: "world \<Rightarrow> jstring \<Rightarrow> int" where
  "stored_vip w k = (case select_user (db w) k of None \<Rightarrow> 0 | Some r \<Rightarrow> or0 (vip_until r))"

text \<open>
  The case mappings of the concrete runs: the Unicode mappings as they act on strings of
  ASCII characters, where only the letters A to Z and a to z change.
\<close>

definition ascii_lower :: "jstring \<Rightarrow> jstring" where
  "ascii_lower s = map (\<lambda>c. if 0x41 \<le> c \<and> c \<le> 0x5A then c + 0x20 else c) s"

definition ascii_upper :: "jstring \<Rightarrow> jstring" where
  "ascii_upper s = map (\<lambda>c. if 0x61 \<le> c \<and> c \<le> 0x7A then c - 0x20 else c) s"

text \<open>
  A small world for concrete runs: the roster of scenario A (member 123 approved), the
  member in the guild without the role, an empty table, a platform that accepts every
  role change, and a clock that stands at 1000.
\<close>

definition scenario_A :: world where
  "scenario_A =
     \<lparr>db = [],
      sheet = Some [[js ''discord_id'', js ''lifetime_vip''], [js ''123'', js ''YES'']],
      guild_ok = True, vip_role_ok = True,
      guild_members = {js ''123''}, joinedTimestamp = (\<lambda>m. None),
      vip_role = {}, role_cache = {}, add_rejected = {}, remove_rejected = {},
      clock = (\<lambda>n. 1000), ticks = 0,
      toLowerCase = ascii_lower, toUpperCase = ascii_upper, syncRunning = False\<rparr>"

text \<open>
  Scenario B: member 123 is stored as lifetime with a trial that runs until 5000 and holds
  the role, on the platform and in the cached member object; the roster no longer lists
  123 (it lists 456, who is not in the guild).
\<close>

definition scenario_B :: world where
  "scenario_B =
     \<lparr>db = [(js ''123'', \<lparr>vip_until = Some LIFETIME_UNTIL, trial_until = Some 5000\<rparr>)],
      sheet = Some [[js ''discord_id'', js ''lifetime_vip''], [js ''456'', js ''YES'']],
      guild_ok = True, vip_role_ok = True,
      guild_members = {js ''123''}, joinedTimestamp = (\<lambda>m. None),
      vip_role = {js ''123''}, role_cache = {js ''123''},
      add_rejected = {}, remove_rejected = {},
      clock = (\<lambda>n. 1000), ticks = 0,
      toLowerCase = ascii_lower, toUpperCase = ascii_upper, syncRunning = False\<rparr>"


text \<open>
  The header row as \<open>getEligibilityMap\<close> compares it: every cell put in lower case by
  the runtime's mapping and then trimmed.
\<close>

definition header_names :: "(jstring \<Rightarrow> jstring) \<Rightarrow> jstring list list \<Rightarrow> jstring set" where
  "header_names lower rows = set (map (\<lambda>h. trim (lower h)) (hd rows))"

text \<open>
  An operation ignores rejected removals of the members in \<open>R\<close> when its result, and its
  effect on everything but the role of the members in \<open>R\<close>, are the same whichever removals
  of members in \<open>R\<close> the platform rejects: started in two worlds that differ only in the set
  of rejected removals (both within \<open>R\<close>) and in who among \<open>R\<close> holds the role, it returns the
  same value and ends in two worlds that again differ only in that way.
\<close>

definition ignores_removals :: "jstring set \<Rightarrow> (world \<Rightarrow> 'a \<times> world) \<Rightarrow> bool" where
  "ignores_removals R f =
     (\<forall>w X S. X - R = vip_role w - R \<and> remove_rejected w \<subseteq> R \<and> S \<subseteq> R \<longrightarrow>
        (\<exists>X'. f (w\<lparr>vip_role := X, remove_rejected := S\<rparr>) =
                 (fst (f w), (snd (f w))\<lparr>vip_role := X', remove_rejected := S\<rparr>) \<and>
              X' - R = vip_role (snd (f w)) - R \<and>
              remove_rejected (snd (f w)) \<subseteq> R))"

text \<open>
  Scenario C: member 123 has a record that expired at 500 and still holds the role, on
  the platform and in the cached member object; the roster approves member 456, who is in
  the guild without a record.
\<close>

definition scenario_C :: world where
  "scenario_C =
     \<lparr>db = [(js ''123'', \<lparr>vip_until = Some 500, trial_until = Some 500\<rparr>)],
      sheet = Some [[js ''discord_id'', js ''lifetime_vip''], [js ''456'', js ''YES'']],
      guild_ok = True, vip_role_ok = True,
      guild_members = {js ''123'', js ''456''}, joinedTimestamp = (\<lambda>m. None),
      vip_role = {js ''123''}, role_cache = {js ''123''},
      add_rejected = {}, remove_rejected = {},
      clock = (\<lambda>n. 1000), ticks = 0,
      toLowerCase = ascii_lower, toUpperCase = ascii_upper, syncRunning = False\<rparr>"

section \<open>Facts about the store and the operations\<close>

subsection \<open>The guarded pass as a function of the world\<close>

lemma syncFromSheetOptimised_unfold:
  "syncFromSheetOptimised w =
     (if syncRunning w then (Inr Skipped, w)
      else
        let (r, w1) = sync_pass (w\<lparr>syncRunning := True\<rparr>) in
        (case r of Inl e \<Rightarrow> Inl e | Inr s \<Rightarrow> Inr (Completed s), w1\<lparr>syncRunning := False\<rparr>))"
  by (simp add: syncFromSheetOptimised_def syncFromSheetOptimised_run_def Let_def split_beta)

subsection \<open>The table\<close>

text \<open>What a lookup returns after each of the two writes; the keys stay distinct.\<close>

lemma select_insert_or_replace:
  "select_user (insert_or_replace m v t tbl) k =
     (if k = m then Some \<lparr>vip_until = Some v, trial_until = Some t\<rparr> else select_user tbl k)"
proof -
  have other: "map_of (filter (\<lambda>kr. fst kr \<noteq> m) tbl) k = (if k = m then None else map_of tbl k)"
    by (induction tbl) auto
  show ?thesis
    by (simp add: select_user_def insert_or_replace_def map_add_def other split: option.split)
qed

lemma select_update_trial_until:
  "select_user (update_trial_until m t tbl) k =
     (if k = m then map_option (\<lambda>r. r\<lparr>trial_until := Some t\<rparr>) (select_user tbl m)
      else select_user tbl k)"
  by (induction tbl) (auto simp: select_user_def update_trial_until_def)

lemma keys_update_trial_until: "map fst (update_trial_until m t tbl) = map fst tbl"
  by (induction tbl) (auto simp: update_trial_until_def)

lemma distinct_insert_or_replace:
  "distinct (map fst tbl) \<Longrightarrow> distinct (map fst (insert_or_replace m v t tbl))"
  by (auto simp: insert_or_replace_def distinct_map_filter)

lemmas store_simps = select_insert_or_replace select_update_trial_until

subsection \<open>The trial backfill\<close>

text \<open>
  \<open>ensureTrialRecordFor\<close> touches only the row of its member, leaves a row with a
  non-zero \<open>trial_until\<close> alone, and returns a trial below \<open>LIFETIME_UNTIL\<close> when
  the timestamps it reads are.
\<close>

lemma env_fields:
  "env w' = env w \<Longrightarrow>
     sheet w' = sheet w \<and> guild_ok w' = guild_ok w \<and> vip_role_ok w' = vip_role_ok w \<and>
     guild_members w' = guild_members w \<and> joinedTimestamp w' = joinedTimestamp w \<and>
     add_rejected w' = add_rejected w \<and> remove_rejected w' = remove_rejected w \<and>
     clock w' = clock w \<and> role_cache w' = role_cache w \<and>
     toLowerCase w' = toLowerCase w \<and> toUpperCase w' = toUpperCase w"
proof -
  assume e: "env w' = env w"
  have "sheet (env w') = sheet (env w)" "guild_ok (env w') = guild_ok (env w)"
    "vip_role_ok (env w') = vip_role_ok (env w)" "guild_members (env w') = guild_members (env w)"
    "joinedTimestamp (env w') = joinedTimestamp (env w)" "add_rejected (env w') = add_rejected (env w)"
    "remove_rejected (env w') = remove_rejected (env w)" "clock (env w') = clock (env w)"
    "role_cache (env w') = role_cache (env w)" "toLowerCase (env w') = toLowerCase (env w)"
    "toUpperCase (env w') = toUpperCase (env w)"
    by (simp_all add: e)
  then show ?thesis by (simp add: env_def)
qed

lemma ensureTrialRecordFor_frame:
  "ensureTrialRecordFor m w = (vt, w') \<Longrightarrow>
     env w' = env w \<and> vip_role w' = vip_role w \<and> syncRunning w' = syncRunning w \<and>
     (\<forall>k. k \<noteq> m \<longrightarrow> select_user (db w') k = select_user (db w) k)"
  by (auto simp: env_def ensureTrialRecordFor_def Date_now_def store_simps Let_def
      split: prod.splits option.splits if_splits)


lemma ensureTrialRecordFor_bound:
  "ensureTrialRecordFor m w = (vt, w') \<Longrightarrow>
   \<forall>r. select_user (db w) m = Some r \<longrightarrow> or0 (trial_until r) < LIFETIME_UNTIL \<Longrightarrow>
   or0 (joinedTimestamp w m) + ONE_MONTH < LIFETIME_UNTIL \<Longrightarrow>
   \<forall>n. clock w n + ONE_MONTH < LIFETIME_UNTIL \<Longrightarrow>
     snd vt < LIFETIME_UNTIL"
  by (auto simp: ensureTrialRecordFor_def Date_now_def Let_def split: prod.splits option.splits if_splits)

lemma ensureTrialRecordFor_distinct:
  "ensureTrialRecordFor m w = (vt, w') \<Longrightarrow> distinct (map fst (db w)) \<Longrightarrow>
     distinct (map fst (db w'))"
  by (auto simp: ensureTrialRecordFor_def Date_now_def Let_def keys_update_trial_until
      distinct_insert_or_replace split: prod.splits option.splits if_splits)

subsection \<open>The per-member operations\<close>

text \<open>
  Each operation is split into what it does when it returns and when it throws; from
  that follow its frame (the rows and roles of other members, and the part of the world
  it never writes) and its effect on its own member.
\<close>

lemma setVipLifetime_Inr:
  "setVipLifetime m w = (Inr u, w') \<Longrightarrow>
     \<exists>vt w2 t. ensureTrialRecordFor m (w\<lparr>vip_role := insert m (vip_role w)\<rparr>) = (vt, w2) \<and>
        db w' = insert_or_replace m LIFETIME_UNTIL t (db w2) \<and>
        vip_role w' = vip_role w2 \<and> env w' = env w2 \<and> syncRunning w' = syncRunning w2 \<and>
        (snd vt \<noteq> 0 \<longrightarrow> t = snd vt)"
  by (auto simp: setVipLifetime_def getVipRole_def roles_add_def Date_now_def Let_def env_def
      split: prod.splits sum.splits if_splits)

lemma setVipLifetime_Inl:
  "setVipLifetime m w = (Inl e, w') \<Longrightarrow> w' = w"
  by (auto simp: setVipLifetime_def getVipRole_def roles_add_def Date_now_def Let_def
      split: prod.splits sum.splits if_splits)

lemma setVipToTrialRemainingOrRemove_Inr:
  "setVipToTrialRemainingOrRemove m w = (Inr res, w') \<Longrightarrow>
     \<exists>vt w1 v. ensureTrialRecordFor m w = (vt, w1) \<and>
        db w' = insert_or_replace m v (snd vt) (db w1) \<and>
        env w' = env w1 \<and> syncRunning w' = syncRunning w1 \<and>
        (if snd vt > clock w1 (ticks w1) then v = snd vt \<and> vip_role w' = insert m (vip_role w1)
         else v = 0 \<and> (vip_role w' = vip_role w1 \<or> vip_role w' = vip_role w1 - {m}))"
  by (auto simp: setVipToTrialRemainingOrRemove_def getVipRole_def roles_add_def
      roles_remove_caught_def Date_now_def Let_def env_def
      split: prod.splits sum.splits if_splits)

lemma setVipToTrialRemainingOrRemove_Inl:
  "setVipToTrialRemainingOrRemove m w = (Inl e, w') \<Longrightarrow>
     w' = w \<or> (\<exists>vt w1. ensureTrialRecordFor m w = (vt, w1) \<and> w' = w1\<lparr>ticks := Suc (ticks w1)\<rparr>)"
  by (auto simp: setVipToTrialRemainingOrRemove_def getVipRole_def roles_add_def
      roles_remove_caught_def Date_now_def Let_def
      split: prod.splits sum.splits if_splits)


lemma env_updates:
  "env (w\<lparr>vip_role := X\<rparr>) = env w" "env (w\<lparr>ticks := n\<rparr>) = env w"
  "env (w\<lparr>db := d\<rparr>) = env w" "env (w\<lparr>syncRunning := b\<rparr>) = env w"
  by (simp_all add: env_def)

lemma setVipLifetime_InrE:
  assumes "setVipLifetime m w = (Inr u, w')"
  obtains vt w2 t where
    "ensureTrialRecordFor m (w\<lparr>vip_role := insert m (vip_role w)\<rparr>) = (vt, w2)"
    "db w' = insert_or_replace m LIFETIME_UNTIL t (db w2)"
    "vip_role w' = vip_role w2" "env w' = env w2" "syncRunning w' = syncRunning w2"
    "snd vt \<noteq> 0 \<longrightarrow> t = snd vt"
  using setVipLifetime_Inr [OF assms] by blast

lemma setVipToTrialRemainingOrRemove_InrE:
  assumes "setVipToTrialRemainingOrRemove m w = (Inr res, w')"
  obtains vt w1 v where
    "ensureTrialRecordFor m w = (vt, w1)"
    "db w' = insert_or_replace m v (snd vt) (db w1)"
    "env w' = env w1" "syncRunning w' = syncRunning w1"
    "if snd vt > clock w1 (ticks w1) then v = snd vt \<and> vip_role w' = insert m (vip_role w1)
     else v = 0 \<and> (vip_role w' = vip_role w1 \<or> vip_role w' = vip_role w1 - {m})"
  using setVipToTrialRemainingOrRemove_Inr [OF assms] by blast

lemma setVipLifetime_frame:
  assumes "setVipLifetime m w = (res, w')"
  shows "env w' = env w \<and> syncRunning w' = syncRunning w \<and>
     (\<forall>k. k \<noteq> m \<longrightarrow> select_user (db w') k = select_user (db w) k \<and>
                      (k \<in> vip_role w') = (k \<in> vip_role w))"
proof (cases res)
  case (Inl e)
  with assms have "w' = w" by (simp add: setVipLifetime_Inl)
  then show ?thesis by simp
next
  case (Inr u)
  from assms [unfolded Inr] obtain vt w2 t where
    e: "ensureTrialRecordFor m (w\<lparr>vip_role := insert m (vip_role w)\<rparr>) = (vt, w2)" and
    d: "db w' = insert_or_replace m LIFETIME_UNTIL t (db w2)" and
    r: "vip_role w' = vip_role w2" "env w' = env w2" "syncRunning w' = syncRunning w2" and
    t: "snd vt \<noteq> 0 \<longrightarrow> t = snd vt"
    by (rule setVipLifetime_InrE)
  from ensureTrialRecordFor_frame [OF e] d r show ?thesis
    by (simp add: store_simps env_updates)
qed

lemma setVipLifetime_effect:
  assumes "setVipLifetime m w = (Inr u, w')"
  shows "m \<in> vip_role w' \<and>
     (\<exists>t. select_user (db w') m = Some \<lparr>vip_until = Some LIFETIME_UNTIL, trial_until = Some t\<rparr>)"
proof -
  from assms obtain vt w2 t where
    e: "ensureTrialRecordFor m (w\<lparr>vip_role := insert m (vip_role w)\<rparr>) = (vt, w2)" and
    d: "db w' = insert_or_replace m LIFETIME_UNTIL t (db w2)" and
    r: "vip_role w' = vip_role w2" "env w' = env w2" "syncRunning w' = syncRunning w2" and
    t: "snd vt \<noteq> 0 \<longrightarrow> t = snd vt"
    by (rule setVipLifetime_InrE)
  from ensureTrialRecordFor_frame [OF e] d r show ?thesis
    by (simp add: store_simps)
qed

lemma setVipToTrialRemainingOrRemove_frame:
  assumes "setVipToTrialRemainingOrRemove m w = (res, w')"
  shows "env w' = env w \<and> syncRunning w' = syncRunning w \<and>
     (\<forall>k. k \<noteq> m \<longrightarrow> select_user (db w') k = select_user (db w) k \<and>
                      (k \<in> vip_role w') = (k \<in> vip_role w))"
proof (cases res)
  case (Inl e)
  from setVipToTrialRemainingOrRemove_Inl [OF assms [unfolded Inl]]
  show ?thesis
  proof (elim disjE exE conjE)
    assume "w' = w"
    then show ?thesis by simp
  next
    fix vt w1
    assume 2: "ensureTrialRecordFor m w = (vt, w1)" "w' = w1\<lparr>ticks := Suc (ticks w1)\<rparr>"
    from ensureTrialRecordFor_frame [OF 2(1)] 2(2) show ?thesis
      by (simp add: env_updates)
  qed
next
  case (Inr u)
  from assms [unfolded Inr] obtain vt w1 v where
    e: "ensureTrialRecordFor m w = (vt, w1)" and
    d: "db w' = insert_or_replace m v (snd vt) (db w1)" and
    r: "env w' = env w1" "syncRunning w' = syncRunning w1" and
    c: "if snd vt > clock w1 (ticks w1) then v = snd vt \<and> vip_role w' = insert m (vip_role w1)
     else v = 0 \<and> (vip_role w' = vip_role w1 \<or> vip_role w' = vip_role w1 - {m})"
    by (rule setVipToTrialRemainingOrRemove_InrE)
  from c have c': "vip_role w' = insert m (vip_role w1) \<or> vip_role w' = vip_role w1 \<or>
        vip_role w' = vip_role w1 - {m}"
    by (simp split: if_splits)
  from ensureTrialRecordFor_frame [OF e] have
    f: "env w1 = env w" "vip_role w1 = vip_role w" "syncRunning w1 = syncRunning w"
       "\<forall>k. k \<noteq> m \<longrightarrow> select_user (db w1) k = select_user (db w) k"
    by simp_all
  have "\<forall>k. k \<noteq> m \<longrightarrow> (k \<in> vip_role w') = (k \<in> vip_role w)"
    using c' f(2) by auto
  with d r f show ?thesis
    by (simp add: store_simps)
qed


lemma setVipToTrialRemainingOrRemove_bound:
  assumes "setVipToTrialRemainingOrRemove m w = (Inr res, w')"
    and "\<forall>r. select_user (db w) m = Some r \<longrightarrow> or0 (trial_until r) < LIFETIME_UNTIL"
    and "or0 (joinedTimestamp w m) + ONE_MONTH < LIFETIME_UNTIL"
    and "\<forall>n. clock w n + ONE_MONTH < LIFETIME_UNTIL"
  shows "\<exists>r'. select_user (db w') m = Some r' \<and> or0 (vip_until r') < LIFETIME_UNTIL"
proof -
  from assms(1) obtain vt w1 v where
    e: "ensureTrialRecordFor m w = (vt, w1)" and
    d: "db w' = insert_or_replace m v (snd vt) (db w1)" and
    r: "env w' = env w1" "syncRunning w' = syncRunning w1" and
    c: "if snd vt > clock w1 (ticks w1) then v = snd vt \<and> vip_role w' = insert m (vip_role w1)
         else v = 0 \<and> (vip_role w' = vip_role w1 \<or> vip_role w' = vip_role w1 - {m})"
    by (rule setVipToTrialRemainingOrRemove_InrE)
  from c have c': "v = snd vt \<or> v = 0" by (simp split: if_splits)
  from ensureTrialRecordFor_bound [OF e assms(2,3,4)] have "snd vt < LIFETIME_UNTIL" .
  moreover have "0 < LIFETIME_UNTIL" by (simp add: LIFETIME_UNTIL_def)
  ultimately have "v < LIFETIME_UNTIL" using c' by auto
  with d show ?thesis by (simp add: store_simps or0_def)
qed

lemma removeVipIfHas_frame:
  "removeVipIfHas m w = (res, w') \<Longrightarrow>
     env w' = env w \<and> syncRunning w' = syncRunning w \<and> db w' = db w \<and> ticks w' = ticks w \<and>
     vip_role w' \<subseteq> vip_role w \<and>
     (\<forall>k. k \<noteq> m \<longrightarrow> (k \<in> vip_role w') = (k \<in> vip_role w))"
  by (auto simp: removeVipIfHas_def getVipRole_def roles_remove_caught_def env_def
      split: if_splits)

lemma removeVipIfHas_effect:
  "removeVipIfHas m w = (Inr u, w') \<Longrightarrow> m \<in> role_cache w \<Longrightarrow> m \<notin> remove_rejected w \<Longrightarrow>
     m \<notin> vip_role w'"
  by (auto simp: removeVipIfHas_def getVipRole_def roles_remove_caught_def
      split: if_splits)

lemma removeVipIfHas_unremoved:
  "removeVipIfHas m w = (res, w') \<Longrightarrow> k \<notin> role_cache w \<or> k \<in> remove_rejected w \<Longrightarrow>
     (k \<in> vip_role w') = (k \<in> vip_role w)"
  by (auto simp: removeVipIfHas_def getVipRole_def roles_remove_caught_def
      split: if_splits)


subsection \<open>The three phases\<close>

text \<open>
  For each loop: one step, the frame, and the effect on a member that the loop visits. A
  member that occurs once in the list is handled by exactly one call of the operation.
\<close>

lemma grant_loop_Cons:
  "grant_loop ((u, a) # es) n w =
     (if a \<and> u \<in> guild_members w then
        (case setVipLifetime u w of
           (Inl e, w1) \<Rightarrow> (Inl e, w1)
         | (Inr x, w1) \<Rightarrow> grant_loop es (Suc n) w1)
      else grant_loop es n w)"
  by (simp add: fetchMemberSafe_def)

lemma grant_loop_frame:
  "grant_loop es n w = (res, w') \<Longrightarrow>
     env w' = env w \<and> syncRunning w' = syncRunning w \<and>
     (\<forall>k. (k, True) \<notin> set es \<or> k \<notin> guild_members w \<longrightarrow>
          select_user (db w') k = select_user (db w) k \<and> (k \<in> vip_role w') = (k \<in> vip_role w))"
proof (induction es arbitrary: n w)
  case Nil
  then show ?case by simp
next
  case (Cons ua es)
  obtain u a where ua: "ua = (u, a)" by (cases ua)
  show ?case
  proof (cases "a \<and> u \<in> guild_members w")
    case False
    with Cons.prems ua have "grant_loop es n w = (res, w')"
      by (simp add: grant_loop_Cons del: grant_loop.simps)
    from Cons.IH [OF this] False ua show ?thesis by auto
  next
    case True
    obtain r1 w1 where op: "setVipLifetime u w = (r1, w1)" by (cases "setVipLifetime u w")
    note f = setVipLifetime_frame [OF op]
    show ?thesis
    proof (cases r1)
      case (Inl e)
      with Cons.prems ua True op have "w' = w1"
        by (simp add: grant_loop_Cons del: grant_loop.simps)
      with f True ua show ?thesis by auto
    next
      case (Inr x)
      with Cons.prems ua True op have rest: "grant_loop es (Suc n) w1 = (res, w')"
        by (simp add: grant_loop_Cons del: grant_loop.simps)
      from f have gm: "guild_members w1 = guild_members w"
        using env_fields [of w1 w] by simp
      from Cons.IH [OF rest] f gm True ua show ?thesis by auto
    qed
  qed
qed

lemma grant_loop_count:
  "grant_loop es n w = (Inr n', w') \<Longrightarrow>
     n' = n + length (filter (\<lambda>ua. snd ua \<and> fst ua \<in> guild_members w) es)"
proof (induction es arbitrary: n w)
  case Nil
  then show ?case by simp
next
  case (Cons ua es)
  obtain u a where ua: "ua = (u, a)" by (cases ua)
  show ?case
  proof (cases "a \<and> u \<in> guild_members w")
    case False
    with Cons.prems ua have "grant_loop es n w = (Inr n', w')"
      by (simp add: grant_loop_Cons del: grant_loop.simps)
    from Cons.IH [OF this] False ua show ?thesis by auto
  next
    case True
    obtain r1 w1 where op: "setVipLifetime u w = (r1, w1)" by (cases "setVipLifetime u w")
    from setVipLifetime_frame [OF op] have gm: "guild_members w1 = guild_members w"
      using env_fields [of w1 w] by simp
    from Cons.prems ua True op have rest: "grant_loop es (Suc n) w1 = (Inr n', w')"
      by (cases r1) (simp_all add: grant_loop_Cons del: grant_loop.simps)
    from Cons.IH [OF rest] gm True ua show ?thesis by simp
  qed
qed

lemma grant_loop_effect:
  "distinct (map fst es) \<Longrightarrow> (k, True) \<in> set es \<Longrightarrow> k \<in> guild_members w \<Longrightarrow>
   grant_loop es n w = (Inr n', w') \<Longrightarrow>
     \<exists>wa wb x. select_user (db wa) k = select_user (db w) k \<and>
        (k \<in> vip_role wa) = (k \<in> vip_role w) \<and> env wa = env w \<and>
        setVipLifetime k wa = (Inr x, wb) \<and>
        select_user (db w') k = select_user (db wb) k \<and>
        (k \<in> vip_role w') = (k \<in> vip_role wb)"
proof (induction es arbitrary: n w)
  case Nil
  then show ?case by simp
next
  case (Cons ua es)
  obtain u a where ua: "ua = (u, a)" by (cases ua)
  show ?case
  proof (cases "a \<and> u \<in> guild_members w")
    case False
    with Cons.prems ua have rest: "grant_loop es n w = (Inr n', w')"
      by (simp add: grant_loop_Cons del: grant_loop.simps)
    from False Cons.prems(2,3) ua have "(k, True) \<in> set es" by auto
    from Cons.IH [OF _ this Cons.prems(3) rest] Cons.prems(1) show ?thesis by simp
  next
    case True
    obtain r1 w1 where op: "setVipLifetime u w = (r1, w1)" by (cases "setVipLifetime u w")
    note f = setVipLifetime_frame [OF op]
    from f have gm: "guild_members w1 = guild_members w"
      using env_fields [of w1 w] by simp
    from Cons.prems ua True op obtain x where r1: "r1 = Inr x"
      and rest: "grant_loop es (Suc n) w1 = (Inr n', w')"
      by (cases r1) (simp_all add: grant_loop_Cons del: grant_loop.simps)
    show ?thesis
    proof (cases "u = k")
      case True
      with Cons.prems(1) ua have "(k, True) \<notin> set es" by force
      with grant_loop_frame [OF rest]
      have "select_user (db w') k = select_user (db w1) k \<and> (k \<in> vip_role w') = (k \<in> vip_role w1)"
        by simp
      with op r1 True show ?thesis by blast
    next
      case False
      with Cons.prems(2) ua have in_rest: "(k, True) \<in> set es" by auto
      from Cons.prems(3) gm have "k \<in> guild_members w1" by simp
      from Cons.IH [OF _ in_rest this rest] Cons.prems(1)
      obtain wa wb x' where
        "select_user (db wa) k = select_user (db w1) k" "(k \<in> vip_role wa) = (k \<in> vip_role w1)"
        "env wa = env w1" "setVipLifetime k wa = (Inr x', wb)"
        "select_user (db w') k = select_user (db wb) k" "(k \<in> vip_role w') = (k \<in> vip_role wb)"
        by auto
      with f False show ?thesis by (metis (no_types))
    qed
  qed
qed


lemma downgrade_loop_Cons:
  "downgrade_loop (u # us) elig n w =
     (if map_of elig u \<noteq> Some True \<and> u \<in> guild_members w then
        (case setVipToTrialRemainingOrRemove u w of
           (Inl e, w1) \<Rightarrow> (Inl e, w1)
         | (Inr x, w1) \<Rightarrow> downgrade_loop us elig (Suc n) w1)
      else downgrade_loop us elig n w)"
  by (simp add: fetchMemberSafe_def)

lemma downgrade_loop_frame:
  "downgrade_loop us elig n w = (res, w') \<Longrightarrow>
     env w' = env w \<and> syncRunning w' = syncRunning w \<and>
     (\<forall>k. k \<notin> set us \<or> map_of elig k = Some True \<or> k \<notin> guild_members w \<longrightarrow>
          select_user (db w') k = select_user (db w) k \<and> (k \<in> vip_role w') = (k \<in> vip_role w))"
proof (induction us arbitrary: n w)
  case Nil
  then show ?case by simp
next
  case (Cons u us)
  show ?case
  proof (cases "map_of elig u \<noteq> Some True \<and> u \<in> guild_members w")
    case False
    with Cons.prems have "downgrade_loop us elig n w = (res, w')"
      by (simp add: downgrade_loop_Cons del: downgrade_loop.simps)
    from Cons.IH [OF this] False show ?thesis by auto
  next
    case True
    obtain r1 w1 where op: "setVipToTrialRemainingOrRemove u w = (r1, w1)"
      by (cases "setVipToTrialRemainingOrRemove u w")
    note f = setVipToTrialRemainingOrRemove_frame [OF op]
    show ?thesis
    proof (cases r1)
      case (Inl e)
      with Cons.prems True op have "w' = w1"
        by (simp add: downgrade_loop_Cons del: downgrade_loop.simps)
      with f True show ?thesis by auto
    next
      case (Inr x)
      with Cons.prems True op have rest: "downgrade_loop us elig (Suc n) w1 = (res, w')"
        by (simp add: downgrade_loop_Cons del: downgrade_loop.simps)
      from f have gm: "guild_members w1 = guild_members w"
        using env_fields [of w1 w] by simp
      from Cons.IH [OF rest] f gm True show ?thesis by auto
    qed
  qed
qed

lemma downgrade_loop_skip:
  "\<forall>u\<in>set us. map_of elig u = Some True \<or> u \<notin> guild_members w \<Longrightarrow>
     downgrade_loop us elig n w = (Inr n, w)"
  by (induction us) (auto simp: downgrade_loop_Cons simp del: downgrade_loop.simps(2))

lemma downgrade_loop_effect:
  "distinct us \<Longrightarrow> k \<in> set us \<Longrightarrow> map_of elig k \<noteq> Some True \<Longrightarrow> k \<in> guild_members w \<Longrightarrow>
   downgrade_loop us elig n w = (Inr n', w') \<Longrightarrow>
     \<exists>wa wb x. select_user (db wa) k = select_user (db w) k \<and>
        (k \<in> vip_role wa) = (k \<in> vip_role w) \<and> env wa = env w \<and>
        setVipToTrialRemainingOrRemove k wa = (Inr x, wb) \<and>
        select_user (db w') k = select_user (db wb) k \<and>
        (k \<in> vip_role w') = (k \<in> vip_role wb)"
proof (induction us arbitrary: n w)
  case Nil
  then show ?case by simp
next
  case (Cons u us)
  show ?case
  proof (cases "map_of elig u \<noteq> Some True \<and> u \<in> guild_members w")
    case False
    with Cons.prems have rest: "downgrade_loop us elig n w = (Inr n', w')"
      by (simp add: downgrade_loop_Cons del: downgrade_loop.simps)
    from False Cons.prems(2,3,4) have "k \<in> set us" by auto
    from Cons.IH [OF _ this Cons.prems(3,4) rest] Cons.prems(1) show ?thesis by simp
  next
    case True
    obtain r1 w1 where op: "setVipToTrialRemainingOrRemove u w = (r1, w1)"
      by (cases "setVipToTrialRemainingOrRemove u w")
    note f = setVipToTrialRemainingOrRemove_frame [OF op]
    from f have gm: "guild_members w1 = guild_members w"
      using env_fields [of w1 w] by simp
    from Cons.prems True op obtain x where r1: "r1 = Inr x"
      and rest: "downgrade_loop us elig (Suc n) w1 = (Inr n', w')"
      by (cases r1) (simp_all add: downgrade_loop_Cons del: downgrade_loop.simps)
    show ?thesis
    proof (cases "u = k")
      case True
      with Cons.prems(1) have "k \<notin> set us" by simp
      with downgrade_loop_frame [OF rest]
      have "select_user (db w') k = select_user (db w1) k \<and> (k \<in> vip_role w') = (k \<in> vip_role w1)"
        by simp
      with op r1 True show ?thesis by blast
    next
      case False
      with Cons.prems(2) have in_rest: "k \<in> set us" by auto
      from Cons.prems(4) gm have "k \<in> guild_members w1" by simp
      from Cons.IH [OF _ in_rest Cons.prems(3) this rest] Cons.prems(1)
      obtain wa wb x' where
        "select_user (db wa) k = select_user (db w1) k" "(k \<in> vip_role wa) = (k \<in> vip_role w1)"
        "env wa = env w1" "setVipToTrialRemainingOrRemove k wa = (Inr x', wb)"
        "select_user (db w') k = select_user (db wb) k" "(k \<in> vip_role w') = (k \<in> vip_role wb)"
        by auto
      with f False show ?thesis by (metis (no_types))
    qed
  qed
qed

lemma expiry_loop_Cons:
  "expiry_loop (r # rs) n w =
     (if or0 (vip_until (snd r)) = 0 \<or> LIFETIME_UNTIL \<le> or0 (vip_until (snd r))
      then expiry_loop rs n w
      else if clock w (ticks w) < or0 (vip_until (snd r)) \<or> fst r \<notin> guild_members w
      then expiry_loop rs n (w\<lparr>ticks := Suc (ticks w)\<rparr>)
      else (case removeVipIfHas (fst r) (w\<lparr>ticks := Suc (ticks w)\<rparr>) of
              (Inl e, w1) \<Rightarrow> (Inl e, w1)
            | (Inr x, w1) \<Rightarrow> expiry_loop rs (Suc n) w1))"
  by (simp add: fetchMemberSafe_def Date_now_def Let_def)

lemma expiry_loop_frame:
  "expiry_loop rs n w = (res, w') \<Longrightarrow>
     env w' = env w \<and> syncRunning w' = syncRunning w \<and> db w' = db w \<and>
     vip_role w' \<subseteq> vip_role w"
proof (induction rs arbitrary: n w)
  case Nil
  then show ?case by simp
next
  case (Cons r rs)
  let ?wt = "w\<lparr>ticks := Suc (ticks w)\<rparr>"
  have wt: "env ?wt = env w" "syncRunning ?wt = syncRunning w" "db ?wt = db w"
    "vip_role ?wt = vip_role w"
    by (simp_all add: env_updates)
  consider (skip) "expiry_loop rs n w = (res, w')"
    | (later) "expiry_loop rs n ?wt = (res, w')"
    | (failed) e where "removeVipIfHas (fst r) ?wt = (Inl e, w')"
    | (removed) x w1 where "removeVipIfHas (fst r) ?wt = (Inr x, w1)"
        "expiry_loop rs (Suc n) w1 = (res, w')"
  proof (cases "removeVipIfHas (fst r) ?wt")
    case (Pair r1 w1)
    with Cons.prems that show ?thesis
      by (cases r1) (simp_all add: expiry_loop_Cons del: expiry_loop.simps split: if_splits)
  qed
  then show ?case
  proof cases
    case skip
    from Cons.IH [OF this] show ?thesis .
  next
    case later
    from Cons.IH [OF this] wt show ?thesis by simp
  next
    case failed
    from removeVipIfHas_frame [OF this] wt show ?thesis by simp
  next
    case removed
    from removeVipIfHas_frame [OF removed(1)] Cons.IH [OF removed(2)] wt show ?thesis
      by auto
  qed
qed

lemma expiry_loop_keeps:
  "expiry_loop rs n w = (res, w') \<Longrightarrow>
   \<forall>r. (k, r) \<in> set rs \<longrightarrow>
        or0 (vip_until r) = 0 \<or> LIFETIME_UNTIL \<le> or0 (vip_until r) \<or>
        (\<forall>i. clock w i < or0 (vip_until r)) \<Longrightarrow>
     (k \<in> vip_role w') = (k \<in> vip_role w)"
proof (induction rs arbitrary: n w)
  case Nil
  then show ?case by simp
next
  case (Cons r0 rs)
  let ?wt = "w\<lparr>ticks := Suc (ticks w)\<rparr>"
  have wt: "clock ?wt = clock w" "vip_role ?wt = vip_role w" "env ?wt = env w"
    by (simp_all add: env_updates)
  from Cons.prems(2) have tail:
    "\<forall>r. (k, r) \<in> set rs \<longrightarrow>
        or0 (vip_until r) = 0 \<or> LIFETIME_UNTIL \<le> or0 (vip_until r) \<or>
        (\<forall>i. clock w i < or0 (vip_until r))"
    by simp
  consider (skip) "expiry_loop rs n w = (res, w')"
    | (later) "expiry_loop rs n ?wt = (res, w')"
    | (call) r1 w1 where "removeVipIfHas (fst r0) ?wt = (r1, w1)"
        "or0 (vip_until (snd r0)) \<noteq> 0" "\<not> LIFETIME_UNTIL \<le> or0 (vip_until (snd r0))"
        "\<not> clock w (ticks w) < or0 (vip_until (snd r0))"
        "r1 = Inl (projl r1) \<and> w' = w1 \<or> expiry_loop rs (Suc n) w1 = (res, w')"
  proof (cases "removeVipIfHas (fst r0) ?wt")
    case (Pair r1 w1)
    with Cons.prems(1) that show ?thesis
      by (cases r1) (simp_all add: expiry_loop_Cons del: expiry_loop.simps split: if_splits)
  qed
  then show ?case
  proof cases
    case skip
    from Cons.IH [OF this tail] show ?thesis .
  next
    case later
    from Cons.IH [OF this] tail wt show ?thesis by simp
  next
    case call
    have "fst r0 \<noteq> k"
    proof
      assume "fst r0 = k"
      then have "(k, snd r0) \<in> set (r0 # rs)" by (cases r0) simp
      with Cons.prems(2) call(2,3) have "\<forall>i. clock w i < or0 (vip_until (snd r0))" by blast
      with call(4) show False by blast
    qed
    with removeVipIfHas_frame [OF call(1)] wt
    have k1: "(k \<in> vip_role w1) = (k \<in> vip_role w)" and e1: "env w1 = env w" by simp_all
    from env_fields [OF e1] have ck: "clock w1 = clock w" by simp
    from call(5) show ?thesis
    proof
      assume "r1 = Inl (projl r1) \<and> w' = w1"
      with k1 show ?thesis by simp
    next
      assume rest: "expiry_loop rs (Suc n) w1 = (res, w')"
      from Cons.IH [OF rest] tail ck k1 show ?thesis by simp
    qed
  qed
qed

lemma expiry_loop_effect:
  "expiry_loop rs n w = (Inr n', w') \<Longrightarrow> (k, r) \<in> set rs \<Longrightarrow>
   or0 (vip_until r) \<noteq> 0 \<Longrightarrow> or0 (vip_until r) < LIFETIME_UNTIL \<Longrightarrow>
   \<forall>i. or0 (vip_until r) \<le> clock w i \<Longrightarrow> k \<in> guild_members w \<Longrightarrow>
   k \<in> role_cache w \<Longrightarrow> k \<notin> remove_rejected w \<Longrightarrow> k \<notin> vip_role w'"
proof (induction rs arbitrary: n w)
  case Nil
  then show ?case by simp
next
  case (Cons r0 rs)
  let ?wt = "w\<lparr>ticks := Suc (ticks w)\<rparr>"
  have wt: "clock ?wt = clock w" "guild_members ?wt = guild_members w"
    "remove_rejected ?wt = remove_rejected w" "role_cache ?wt = role_cache w" "env ?wt = env w"
    by (simp_all add: env_updates)
  show ?case
  proof (cases "r0 = (k, r)")
    case True
    from Cons.prems(5) have now: "\<not> clock w (ticks w) < or0 (vip_until r)"
      by (simp add: not_less)
    obtain r1 w1 where op: "removeVipIfHas k ?wt = (r1, w1)"
      by (cases "removeVipIfHas k ?wt")
    with True Cons.prems(1,3,4,6) now obtain x where r1: "r1 = Inr x"
      and rest: "expiry_loop rs (Suc n) w1 = (Inr n', w')"
      by (cases r1) (simp_all add: expiry_loop_Cons del: expiry_loop.simps)
    from removeVipIfHas_effect [OF op [unfolded r1]] Cons.prems(7,8) have "k \<notin> vip_role w1"
      by simp
    with expiry_loop_frame [OF rest] show ?thesis by blast
  next
    case False
    with Cons.prems(2) have in_rest: "(k, r) \<in> set rs" by simp
    consider (same) "expiry_loop rs n w = (Inr n', w')"
      | (tick) "expiry_loop rs n ?wt = (Inr n', w')"
      | (removed) x w1 where "removeVipIfHas (fst r0) ?wt = (Inr x, w1)"
          "expiry_loop rs (Suc n) w1 = (Inr n', w')"
    proof (cases "removeVipIfHas (fst r0) ?wt")
      case (Pair r1 w1)
      with Cons.prems(1) that show ?thesis
        by (cases r1) (simp_all add: expiry_loop_Cons del: expiry_loop.simps split: if_splits)
    qed
    then show ?thesis
    proof cases
      case same
      from Cons.IH [OF same in_rest Cons.prems(3,4,5,6,7,8)] show ?thesis .
    next
      case tick
      from Cons.IH [OF tick in_rest Cons.prems(3,4)] Cons.prems(5,6,7,8) wt show ?thesis by simp
    next
      case removed
      from removeVipIfHas_frame [OF removed(1)] wt have "env w1 = env w"
        by simp
      from env_fields [OF this] have "clock w1 = clock w" "guild_members w1 = guild_members w"
        "remove_rejected w1 = remove_rejected w" "role_cache w1 = role_cache w" by simp_all
      with Cons.IH [OF removed(2) in_rest Cons.prems(3,4)] Cons.prems(5,6,7,8) show ?thesis by simp
    qed
  qed
qed


lemma expiry_loop_unremoved:
  "expiry_loop rs n w = (res, w') \<Longrightarrow> k \<notin> role_cache w \<or> k \<in> remove_rejected w \<Longrightarrow>
     (k \<in> vip_role w') = (k \<in> vip_role w)"
proof (induction rs arbitrary: n w)
  case Nil
  then show ?case by simp
next
  case (Cons r rs)
  let ?wt = "w\<lparr>ticks := Suc (ticks w)\<rparr>"
  have wt: "role_cache ?wt = role_cache w" "remove_rejected ?wt = remove_rejected w"
    "vip_role ?wt = vip_role w" "env ?wt = env w"
    by (simp_all add: env_updates)
  consider (skip) "expiry_loop rs n w = (res, w')"
    | (later) "expiry_loop rs n ?wt = (res, w')"
    | (failed) e where "removeVipIfHas (fst r) ?wt = (Inl e, w')"
    | (removed) x w1 where "removeVipIfHas (fst r) ?wt = (Inr x, w1)"
        "expiry_loop rs (Suc n) w1 = (res, w')"
  proof (cases "removeVipIfHas (fst r) ?wt")
    case (Pair r1 w1)
    with Cons.prems(1) that show ?thesis
      by (cases r1) (simp_all add: expiry_loop_Cons del: expiry_loop.simps split: if_splits)
  qed
  then show ?case
  proof cases
    case skip
    from Cons.IH [OF this Cons.prems(2)] show ?thesis .
  next
    case later
    from Cons.IH [OF this] Cons.prems(2) wt show ?thesis by simp
  next
    case failed
    from removeVipIfHas_unremoved [OF this] Cons.prems(2) wt show ?thesis by simp
  next
    case removed
    from removeVipIfHas_unremoved [OF removed(1)] Cons.prems(2) wt
    have k1: "(k \<in> vip_role w1) = (k \<in> vip_role w)" by simp
    from removeVipIfHas_frame [OF removed(1)] wt have "env w1 = env w" by simp
    from env_fields [OF this] have "role_cache w1 = role_cache w"
      "remove_rejected w1 = remove_rejected w" by simp_all
    with Cons.IH [OF removed(2)] Cons.prems(2) k1 show ?thesis by simp
  qed
qed

lemma expiry_loop_mono: "expiry_loop rs n w = (Inr n', w') \<Longrightarrow> n \<le> n'"
proof (induction rs arbitrary: n w)
  case Nil
  then show ?case by simp
next
  case (Cons r rs)
  let ?wt = "w\<lparr>ticks := Suc (ticks w)\<rparr>"
  consider (skip) "expiry_loop rs n w = (Inr n', w')"
    | (later) "expiry_loop rs n ?wt = (Inr n', w')"
    | (removed) x w1 where "removeVipIfHas (fst r) ?wt = (Inr x, w1)"
        "expiry_loop rs (Suc n) w1 = (Inr n', w')"
  proof (cases "removeVipIfHas (fst r) ?wt")
    case (Pair r1 w1)
    with Cons.prems(1) that show ?thesis
      by (cases r1) (simp_all add: expiry_loop_Cons del: expiry_loop.simps split: if_splits)
  qed
  then show ?case
  proof cases
    case skip
    then show ?thesis by (rule Cons.IH)
  next
    case later
    then show ?thesis by (rule Cons.IH)
  next
    case removed
    from Cons.IH [OF removed(2)] show ?thesis by simp
  qed
qed

lemma expiry_loop_visits:
  "expiry_loop rs n w = (Inr n', w') \<Longrightarrow> (k, r) \<in> set rs \<Longrightarrow>
   or0 (vip_until r) \<noteq> 0 \<Longrightarrow> or0 (vip_until r) < LIFETIME_UNTIL \<Longrightarrow>
   \<forall>i. or0 (vip_until r) \<le> clock w i \<Longrightarrow> k \<in> guild_members w \<Longrightarrow> n < n'"
proof (induction rs arbitrary: n w)
  case Nil
  then show ?case by simp
next
  case (Cons r0 rs)
  let ?wt = "w\<lparr>ticks := Suc (ticks w)\<rparr>"
  have wt: "clock ?wt = clock w" "guild_members ?wt = guild_members w" "env ?wt = env w"
    by (simp_all add: env_updates)
  show ?case
  proof (cases "r0 = (k, r)")
    case True
    from Cons.prems(5) have now: "\<not> clock w (ticks w) < or0 (vip_until r)"
      by (simp add: not_less)
    obtain r1 w1 where op: "removeVipIfHas k ?wt = (r1, w1)"
      by (cases "removeVipIfHas k ?wt")
    with True Cons.prems(1,3,4,6) now obtain x where r1: "r1 = Inr x"
      and rest: "expiry_loop rs (Suc n) w1 = (Inr n', w')"
      by (cases r1) (simp_all add: expiry_loop_Cons del: expiry_loop.simps)
    from expiry_loop_mono [OF rest] show ?thesis by simp
  next
    case False
    with Cons.prems(2) have in_rest: "(k, r) \<in> set rs" by simp
    consider (same) "expiry_loop rs n w = (Inr n', w')"
      | (tick) "expiry_loop rs n ?wt = (Inr n', w')"
      | (removed) x w1 where "removeVipIfHas (fst r0) ?wt = (Inr x, w1)"
          "expiry_loop rs (Suc n) w1 = (Inr n', w')"
    proof (cases "removeVipIfHas (fst r0) ?wt")
      case (Pair r1 w1)
      with Cons.prems(1) that show ?thesis
        by (cases r1) (simp_all add: expiry_loop_Cons del: expiry_loop.simps split: if_splits)
    qed
    then show ?thesis
    proof cases
      case same
      from Cons.IH [OF same in_rest Cons.prems(3,4,5,6)] show ?thesis .
    next
      case tick
      from Cons.IH [OF tick in_rest Cons.prems(3,4)] Cons.prems(5,6) wt show ?thesis by simp
    next
      case removed
      from expiry_loop_mono [OF removed(2)] show ?thesis by simp
    qed
  qed
qed


subsection \<open>The eligibility map and the phases of a completed pass\<close>

lemma map_set_key_set: "fst ` set (map_set k v m) = insert k (fst ` set m)"
proof (induction m)
  case Nil
  show ?case by simp
next
  case (Cons p m)
  obtain k' v' where p: "p = (k', v')" by (cases p)
  show ?case
  proof (cases "k' = k")
    case True
    with p show ?thesis by simp
  next
    case False
    with p Cons show ?thesis by (simp add: insert_commute)
  qed
qed

lemma map_set_keys: "distinct (map fst m) \<Longrightarrow> distinct (map fst (map_set k v m))"
proof (induction m)
  case Nil
  show ?case by simp
next
  case (Cons p m)
  obtain k' v' where p: "p = (k', v')" by (cases p)
  show ?case
  proof (cases "k' = k")
    case True
    with p Cons.prems show ?thesis by simp
  next
    case False
    from Cons have "distinct (map fst (map_set k v m))" by simp
    moreover from Cons.prems p False have "k' \<notin> fst ` set (map_set k v m)"
      by (simp add: map_set_key_set)
    ultimately show ?thesis using p False by simp
  qed
qed

lemma eligibility_rows_keys:
  "distinct (map fst m) \<Longrightarrow> distinct (map fst (eligibility_rows up di li rows m))"
  by (induction rows arbitrary: m) (simp_all add: Let_def map_set_keys)

lemma getEligibilityMap_keys:
  "getEligibilityMap w = Inr elig \<Longrightarrow> distinct (map fst elig)"
  by (auto simp: getEligibilityMap_def eligibility_of_rows_def Let_def eligibility_rows_keys
      split: option.splits if_splits)

lemma js_set_props: "distinct (js_set xs) \<and> set (js_set xs) = set xs"
  by (simp add: js_set_def)

lemma sync_CompletedE:
  assumes "syncFromSheetOptimised w = (Inr (Completed s), w')"
  obtains elig w1 w2 w3 where
    "\<not> syncRunning w"
    "getEligibilityMap w = Inr elig"
    "grant_loop elig 0 (w\<lparr>syncRunning := True, ticks := Suc (ticks w)\<rparr>)
       = (Inr (lifetimeEnsured s), w1)"
    "downgrade_loop
       (js_set (map fst (filter (\<lambda>r. LIFETIME_UNTIL \<le> or0 (vip_until (snd r))) (db w))))
       elig 0 w1 = (Inr (lifetimeDowngraded s), w2)"
    "expiry_loop (db w) 0 w2 = (Inr (expiredRemoved s), w3)"
    "w' = w3\<lparr>ticks := Suc (ticks w3), syncRunning := False\<rparr>"
proof -
  let ?ws = "w\<lparr>syncRunning := True, ticks := Suc (ticks w)\<rparr>"
  let ?L = "js_set (map fst (filter (\<lambda>r. LIFETIME_UNTIL \<le> or0 (vip_until (snd r))) (db w)))"
  from assms have free: "\<not> syncRunning w"
    by (auto simp: syncFromSheetOptimised_unfold)
  obtain r0 w0 where pass: "sync_pass (w\<lparr>syncRunning := True\<rparr>) = (r0, w0)"
    by (cases "sync_pass (w\<lparr>syncRunning := True\<rparr>)")
  with assms free have r0: "r0 = Inr s" and w': "w' = w0\<lparr>syncRunning := False\<rparr>"
    by (auto simp: syncFromSheetOptimised_unfold split: sum.splits)
  have ge: "getEligibilityMap ?ws = getEligibilityMap w"
    by (simp add: getEligibilityMap_def cong: option.case_cong)
  obtain elig where elig: "getEligibilityMap w = Inr elig"
    using pass r0 ge
    by (cases "getEligibilityMap w")
       (auto simp: sync_pass_def Date_now_def Let_def split: if_splits)
  obtain r1 w1 where g: "grant_loop elig 0 ?ws = (r1, w1)" by (cases "grant_loop elig 0 ?ws")
  obtain r2 w2 where d: "downgrade_loop ?L elig 0 w1 = (r2, w2)"
    by (cases "downgrade_loop ?L elig 0 w1")
  obtain r3 w3 where x: "expiry_loop (db w) 0 w2 = (r3, w3)"
    by (cases "expiry_loop (db w) 0 w2")
  from pass r0 elig ge g d x
  have "r1 = Inr (lifetimeEnsured s) \<and> r2 = Inr (lifetimeDowngraded s) \<and>
        r3 = Inr (expiredRemoved s) \<and> w0 = w3\<lparr>ticks := Suc (ticks w3)\<rparr>"
    by (cases r1; cases r2; cases r3)
       (auto simp: sync_pass_def Date_now_def Let_def split: if_splits)
  with that [OF free elig] g d x w' show ?thesis by simp
qed

lemma pass_start:
  "env (w\<lparr>syncRunning := True, ticks := Suc (ticks w)\<rparr>) = env w"
  "db (w\<lparr>syncRunning := True, ticks := Suc (ticks w)\<rparr>) = db w"
  "vip_role (w\<lparr>syncRunning := True, ticks := Suc (ticks w)\<rparr>) = vip_role w"
  by (simp_all add: env_def)

text \<open>The definitions a concrete run unfolds.\<close>

lemmas run_defs = syncFromSheetOptimised_unfold sync_pass_def Date_now_def getEligibilityMap_def
  eligibility_of_rows_def trim_def js_def ascii_lower_def ascii_upper_def
  js_whitespace_def cell_def js_set_def fetchMemberSafe_def setVipLifetime_def getVipRole_def
  roles_add_def roles_remove_caught_def ensureTrialRecordFor_def select_user_def or0_def
  insert_or_replace_def update_trial_until_def LIFETIME_UNTIL_def ONE_MONTH_def
  removeVipIfHas_def setVipToTrialRemainingOrRemove_def stored_vip_def Let_def

text \<open>The definitions that list the worlds of a concrete run.\<close>

lemmas worlds_defs = syncFromSheetOptimised_run_def sync_pass_worlds_def
  setVipLifetime_worlds_def setVipToTrialRemainingOrRemove_worlds_def removeVipIfHas_worlds_def

subsection \<open>Properties kept by every step of the pass\<close>

lemma grant_loop_invariant:
  assumes step: "\<And>m v r v'. P v \<Longrightarrow> setVipLifetime m v = (r, v') \<Longrightarrow> P v'"
  shows "P w \<Longrightarrow> grant_loop es n w = (res, w') \<Longrightarrow> P w'"
proof (induction es arbitrary: n w)
  case Nil
  then show ?case by simp
next
  case (Cons ua es)
  obtain u a where ua: "ua = (u, a)" by (cases ua)
  obtain r1 w1 where op: "setVipLifetime u w = (r1, w1)" by (cases "setVipLifetime u w")
  from step [OF Cons.prems(1) op] have p1: "P w1" .
  from Cons.prems(2) ua op consider "grant_loop es n w = (res, w')" | "w' = w1"
    | "grant_loop es (Suc n) w1 = (res, w')"
    by (cases r1) (simp_all add: grant_loop_Cons del: grant_loop.simps split: if_splits)
  then show ?case
  proof cases
    case 1
    from Cons.IH [OF Cons.prems(1) this] show ?thesis .
  next
    case 2
    with p1 show ?thesis by simp
  next
    case 3
    from Cons.IH [OF p1 this] show ?thesis .
  qed
qed

lemma downgrade_loop_invariant:
  assumes step: "\<And>m v r v'. P v \<Longrightarrow> setVipToTrialRemainingOrRemove m v = (r, v') \<Longrightarrow> P v'"
  shows "P w \<Longrightarrow> downgrade_loop us elig n w = (res, w') \<Longrightarrow> P w'"
proof (induction us arbitrary: n w)
  case Nil
  then show ?case by simp
next
  case (Cons u us)
  obtain r1 w1 where op: "setVipToTrialRemainingOrRemove u w = (r1, w1)"
    by (cases "setVipToTrialRemainingOrRemove u w")
  from step [OF Cons.prems(1) op] have p1: "P w1" .
  from Cons.prems(2) op consider "downgrade_loop us elig n w = (res, w')" | "w' = w1"
    | "downgrade_loop us elig (Suc n) w1 = (res, w')"
    by (cases r1) (simp_all add: downgrade_loop_Cons del: downgrade_loop.simps split: if_splits)
  then show ?case
  proof cases
    case 1
    from Cons.IH [OF Cons.prems(1) this] show ?thesis .
  next
    case 2
    with p1 show ?thesis by simp
  next
    case 3
    from Cons.IH [OF p1 this] show ?thesis .
  qed
qed

lemma sync_pass_invariant:
  assumes grant: "\<And>m v r v'. P v \<Longrightarrow> setVipLifetime m v = (r, v') \<Longrightarrow> P v'"
    and downgrade: "\<And>m v r v'. P v \<Longrightarrow> setVipToTrialRemainingOrRemove m v = (r, v') \<Longrightarrow> P v'"
    and db_only: "\<And>v v'. db v' = db v \<Longrightarrow> env v' = env v \<Longrightarrow> P v \<Longrightarrow> P v'"
    and start: "P w"
  shows "P (snd (sync_pass w))"
proof -
  let ?ws = "w\<lparr>ticks := Suc (ticks w)\<rparr>"
  let ?L = "js_set (map fst (filter (\<lambda>r. LIFETIME_UNTIL \<le> or0 (vip_until (snd r))) (db w)))"
  have p0: "P ?ws" using start by (rule db_only [rotated 2]) (simp_all add: env_updates)
  show ?thesis
  proof (cases "guild_ok w")
    case False
    with p0 show ?thesis by (simp add: sync_pass_def Date_now_def)
  next
    case True
    show ?thesis
    proof (cases "getEligibilityMap w")
      case (Inl e)
      then have "getEligibilityMap ?ws = Inl e" by (simp add: getEligibilityMap_def cong: option.case_cong)
      with True p0 show ?thesis by (simp add: sync_pass_def Date_now_def)
    next
      case (Inr elig)
      then have ge: "getEligibilityMap ?ws = Inr elig" by (simp add: getEligibilityMap_def cong: option.case_cong)
      obtain r1 w1 where g: "grant_loop elig 0 ?ws = (r1, w1)" by (cases "grant_loop elig 0 ?ws")
      obtain r2 w2 where d: "downgrade_loop ?L elig 0 w1 = (r2, w2)"
        by (cases "downgrade_loop ?L elig 0 w1")
      obtain r3 w3 where x: "expiry_loop (db w) 0 w2 = (r3, w3)"
        by (cases "expiry_loop (db w) 0 w2")
      from grant_loop_invariant [of P, OF grant p0 g] have p1: "P w1" .
      from downgrade_loop_invariant [of P, OF downgrade p1 d] have p2: "P w2" .
      from expiry_loop_frame [OF x] have "db w3 = db w2" "env w3 = env w2" by simp_all
      from db_only [OF this p2] have p3: "P w3" .
      have p4: "P (w3\<lparr>ticks := Suc (ticks w3)\<rparr>)" using p3 by (rule db_only [rotated 2]) (simp_all add: env_updates)
      from True ge g d x p1 p2 p3 p4 show ?thesis
        by (cases r1; cases r2; cases r3) (simp_all add: sync_pass_def Date_now_def Let_def)
    qed
  qed
qed

lemma sync_invariant:
  assumes grant: "\<And>m v r v'. P v \<Longrightarrow> setVipLifetime m v = (r, v') \<Longrightarrow> P v'"
    and downgrade: "\<And>m v r v'. P v \<Longrightarrow> setVipToTrialRemainingOrRemove m v = (r, v') \<Longrightarrow> P v'"
    and db_only: "\<And>v v'. db v' = db v \<Longrightarrow> env v' = env v \<Longrightarrow> P v \<Longrightarrow> P v'"
    and start: "P w"
  shows "P (snd (syncFromSheetOptimised w))"
proof (cases "syncRunning w")
  case True
  with start show ?thesis by (simp add: syncFromSheetOptimised_unfold)
next
  case False
  have "P (w\<lparr>syncRunning := True\<rparr>)" using start by (rule db_only [rotated 2]) (simp_all add: env_updates)
  from sync_pass_invariant [of P, OF grant downgrade db_only this]
  have "P (snd (sync_pass (w\<lparr>syncRunning := True\<rparr>)))" .
  then have "P ((snd (sync_pass (w\<lparr>syncRunning := True\<rparr>)))\<lparr>syncRunning := False\<rparr>)"
    by (rule db_only [rotated 2]) (simp_all add: env_updates)
  with False show ?thesis
    by (simp add: syncFromSheetOptimised_unfold split_beta)
qed

lemma setVipLifetime_distinct:
  assumes "distinct (map fst (db w))" and "setVipLifetime m w = (res, w')"
  shows "distinct (map fst (db w'))"
proof (cases res)
  case (Inl e)
  with assms(2) have "w' = w" by (simp add: setVipLifetime_Inl)
  with assms(1) show ?thesis by simp
next
  case (Inr u)
  from assms(2) [unfolded Inr] obtain vt w2 t where
    e: "ensureTrialRecordFor m (w\<lparr>vip_role := insert m (vip_role w)\<rparr>) = (vt, w2)" and
    d: "db w' = insert_or_replace m LIFETIME_UNTIL t (db w2)" and
    r: "vip_role w' = vip_role w2" "env w' = env w2" "syncRunning w' = syncRunning w2" and
    t: "snd vt \<noteq> 0 \<longrightarrow> t = snd vt"
    by (rule setVipLifetime_InrE)
  from ensureTrialRecordFor_distinct [OF e] assms(1) have "distinct (map fst (db w2))" by simp
  with d show ?thesis by (simp add: distinct_insert_or_replace)
qed

lemma setVipToTrialRemainingOrRemove_distinct:
  assumes "distinct (map fst (db w))" and "setVipToTrialRemainingOrRemove m w = (res, w')"
  shows "distinct (map fst (db w'))"
proof (cases res)
  case (Inl e)
  from setVipToTrialRemainingOrRemove_Inl [OF assms(2) [unfolded Inl]]
  show ?thesis
  proof (elim disjE exE conjE)
    assume "w' = w"
    with assms(1) show ?thesis by simp
  next
    fix vt w1
    assume 2: "ensureTrialRecordFor m w = (vt, w1)" "w' = w1\<lparr>ticks := Suc (ticks w1)\<rparr>"
    from ensureTrialRecordFor_distinct [OF 2(1) assms(1)] 2(2) show ?thesis by simp
  qed
next
  case (Inr u)
  from assms(2) [unfolded Inr] obtain vt w1 v where
    e: "ensureTrialRecordFor m w = (vt, w1)" and
    d: "db w' = insert_or_replace m v (snd vt) (db w1)" and
    r: "env w' = env w1" "syncRunning w' = syncRunning w1" and
    c: "if snd vt > clock w1 (ticks w1) then v = snd vt \<and> vip_role w' = insert m (vip_role w1)
     else v = 0 \<and> (vip_role w' = vip_role w1 \<or> vip_role w' = vip_role w1 - {m})"
    by (rule setVipToTrialRemainingOrRemove_InrE)
  from ensureTrialRecordFor_distinct [OF e assms(1)] d show ?thesis
    by (simp add: distinct_insert_or_replace)
qed

lemma sync_distinct:
  "distinct (map fst (db w)) \<Longrightarrow> distinct (map fst (db (snd (syncFromSheetOptimised w))))"
proof (rule sync_invariant [where P = "\<lambda>v. distinct (map fst (db v))"])
  fix m v r v'
  assume "distinct (map fst (db v))" "setVipLifetime m v = (r, v')"
  then show "distinct (map fst (db v'))" by (rule setVipLifetime_distinct)
next
  fix m v r v'
  assume "distinct (map fst (db v))" "setVipToTrialRemainingOrRemove m v = (r, v')"
  then show "distinct (map fst (db v'))" by (rule setVipToTrialRemainingOrRemove_distinct)
next
  fix v v' :: world
  assume "db v' = db v" "distinct (map fst (db v))"
  then show "distinct (map fst (db v'))" by simp
qed

lemma sync_env: "env (snd (syncFromSheetOptimised w)) = env w"
proof (rule sync_invariant [where P = "\<lambda>v. env v = env w"])
  fix m v r v'
  assume "env v = env w" "setVipLifetime m v = (r, v')"
  with setVipLifetime_frame [of m v r v'] show "env v' = env w" by simp
next
  fix m v r v'
  assume "env v = env w" "setVipToTrialRemainingOrRemove m v = (r, v')"
  with setVipToTrialRemainingOrRemove_frame [of m v r v'] show "env v' = env w" by simp
next
  fix v v' :: world
  assume "env v' = env v" "env v = env w"
  then show "env v' = env w" by simp
next
  show "env w = env w" by simp
qed

subsection \<open>Lifetime records after a completed pass\<close>

lemma sync_lifetime_iff:
  assumes run: "syncFromSheetOptimised w = (Inr (Completed s), w')"
    and elig: "getEligibilityMap w = Inr elig"
    and member: "k \<in> guild_members w"
    and trial_bound: "\<forall>r. select_user (db w) k = Some r \<longrightarrow> or0 (trial_until r) < LIFETIME_UNTIL"
    and joined_bound: "or0 (joinedTimestamp w k) + ONE_MONTH < LIFETIME_UNTIL"
    and clock_bound: "\<forall>i. clock w i + ONE_MONTH < LIFETIME_UNTIL"
  shows "(LIFETIME_UNTIL \<le> stored_vip w' k) = (map_of elig k = Some True)"
proof -
  let ?ws = "w\<lparr>syncRunning := True, ticks := Suc (ticks w)\<rparr>"
  let ?L = "js_set (map fst (filter (\<lambda>r. LIFETIME_UNTIL \<le> or0 (vip_until (snd r))) (db w)))"
  from run obtain elig' w1 w2 w3 where
    "\<not> syncRunning w" "getEligibilityMap w = Inr elig'" and
    g: "grant_loop elig' 0 ?ws = (Inr (lifetimeEnsured s), w1)" and
    d: "downgrade_loop ?L elig' 0 w1 = (Inr (lifetimeDowngraded s), w2)" and
    x: "expiry_loop (db w) 0 w2 = (Inr (expiredRemoved s), w3)" and
    w': "w' = w3\<lparr>ticks := Suc (ticks w3), syncRunning := False\<rparr>"
    by (rule sync_CompletedE)
  with elig have same: "elig' = elig" by simp
  have keys: "distinct (map fst elig)" using elig by (rule getEligibilityMap_keys)
  from grant_loop_frame [OF g] have e1: "env w1 = env w" by (simp add: pass_start)
  from env_fields [OF e1] member have m1: "k \<in> guild_members w1" by simp
  from expiry_loop_frame [OF x] w' have final: "db w' = db w2" by simp
  show ?thesis
  proof (cases "map_of elig k = Some True")
    case True
    with keys have inlist: "(k, True) \<in> set elig" by simp
    from member have m0: "k \<in> guild_members ?ws" by simp
    from grant_loop_effect [OF keys inlist m0 g [unfolded same]]
    obtain wa wb u where op: "setVipLifetime k wa = (Inr u, wb)"
      and after: "select_user (db w1) k = select_user (db wb) k"
      by blast
    from setVipLifetime_effect [OF op] after obtain t where
      "select_user (db w1) k = Some \<lparr>vip_until = Some LIFETIME_UNTIL, trial_until = Some t\<rparr>"
      by auto
    with downgrade_loop_frame [OF d] True same have
      "select_user (db w2) k = Some \<lparr>vip_until = Some LIFETIME_UNTIL, trial_until = Some t\<rparr>"
      by simp
    with final True show ?thesis by (simp add: stored_vip_def or0_def)
  next
    case False
    with keys have "(k, True) \<notin> set elig" by simp
    with grant_loop_frame [OF g] same have k1: "select_user (db w1) k = select_user (db w) k"
      by (simp add: pass_start)
    have "stored_vip w' k < LIFETIME_UNTIL"
    proof (cases "k \<in> set ?L")
      case True
      have dL: "distinct ?L" by (simp add: js_set_props)
      from downgrade_loop_effect [OF dL True False m1 d [unfolded same]]
      obtain wa wb u where
        pre: "select_user (db wa) k = select_user (db w1) k" "env wa = env w1" and
        op: "setVipToTrialRemainingOrRemove k wa = (Inr u, wb)" and
        after: "select_user (db w2) k = select_user (db wb) k"
        by blast
      from pre e1 have "env wa = env w" by simp
      from env_fields [OF this] joined_bound clock_bound
      have b: "or0 (joinedTimestamp wa k) + ONE_MONTH < LIFETIME_UNTIL"
        "\<forall>i. clock wa i + ONE_MONTH < LIFETIME_UNTIL"
        by simp_all
      from pre k1 trial_bound
      have a: "\<forall>r. select_user (db wa) k = Some r \<longrightarrow> or0 (trial_until r) < LIFETIME_UNTIL"
        by simp
      from setVipToTrialRemainingOrRemove_bound [OF op a b] after final
      show ?thesis by (auto simp: stored_vip_def)
    next
      case False
      with downgrade_loop_frame [OF d] k1 final
      have same_row: "select_user (db w') k = select_user (db w) k" by simp
      have "0 < LIFETIME_UNTIL" by (simp add: LIFETIME_UNTIL_def)
      moreover have "or0 (vip_until r) < LIFETIME_UNTIL" if "select_user (db w) k = Some r" for r
      proof (rule ccontr)
        assume "\<not> or0 (vip_until r) < LIFETIME_UNTIL"
        moreover from that have "(k, r) \<in> set (db w)"
          by (simp add: select_user_def map_of_SomeD)
        ultimately have "k \<in> set ?L" by (force simp: js_set_props)
        with False show False by simp
      qed
      ultimately show ?thesis using same_row
        by (simp add: stored_vip_def split: option.splits)
    qed
    with False show ?thesis by simp
  qed
qed

subsection \<open>Header lookup and the hourly job\<close>

lemma indexOf_None: "(indexOf xs x = None) = (x \<notin> set xs)"
  by (induction xs) (auto split: option.splits)

lemma sync_pass_aborts_early:
  "getEligibilityMap w = Inl e \<Longrightarrow>
     \<exists>e'. sync_pass w = (Inl e', w\<lparr>ticks := Suc (ticks w)\<rparr>) \<and> (guild_ok w \<longrightarrow> e' = e)"
  by (simp add: sync_pass_def Date_now_def getEligibilityMap_def cong: option.case_cong)

lemma logged_simps:
  "logged (Inl e, w) = (Some e, w)"
  "logged (Inr x, w) = (None, w)"
  by (simp_all add: logged_def)

lemma expiry_loop_cleanup_loop:
  "logged (expiry_loop rows n w) =
     cleanup_loop (map (\<lambda>kr. (fst kr, vip_until (snd kr))) rows) w"
proof (induction rows arbitrary: n w)
  case Nil
  show ?case by (simp add: logged_simps)
next
  case (Cons r rows)
  show ?case
    by (simp add: Let_def Cons.IH logged_simps split: prod.splits option.splits sum.splits)
qed

lemma cleanup_loop_lock:
  "cleanup_loop rs (w\<lparr>syncRunning := b\<rparr>) =
     (fst (cleanup_loop rs w), (snd (cleanup_loop rs w))\<lparr>syncRunning := b\<rparr>)"
proof (induction rs arbitrary: w)
  case Nil
  show ?case by simp
next
  case (Cons r rs)
  have tick: "w\<lparr>syncRunning := b, ticks := Suc (ticks w)\<rparr> = w\<lparr>ticks := Suc (ticks w), syncRunning := b\<rparr>"
    by simp
  have rm: "removeVipIfHas m (v\<lparr>syncRunning := b\<rparr>) =
      (fst (removeVipIfHas m v), (snd (removeVipIfHas m v))\<lparr>syncRunning := b\<rparr>)" for m v
    by (simp add: removeVipIfHas_def getVipRole_def roles_remove_caught_def)
  show ?case
    by (simp add: Let_def Date_now_def fetchMemberSafe_def Cons.IH rm tick split_beta
        split: option.splits sum.splits)
qed




subsection \<open>Rejected removals\<close>

text \<open>
  \<open>ignores_removals\<close> holds of the three operations and is kept by sequencing, by
  reading the rest of the world and by stopping at an error, so it holds of the loops
  and of the pass.
\<close>

lemma ignores_removalsI:
  assumes "\<And>w X S. X - R = vip_role w - R \<Longrightarrow> remove_rejected w \<subseteq> R \<Longrightarrow> S \<subseteq> R \<Longrightarrow>
     \<exists>X'. f (w\<lparr>vip_role := X, remove_rejected := S\<rparr>) =
                 (fst (f w), (snd (f w))\<lparr>vip_role := X', remove_rejected := S\<rparr>) \<and>
              X' - R = vip_role (snd (f w)) - R \<and>
              remove_rejected (snd (f w)) \<subseteq> R"
  shows "ignores_removals R f"
  unfolding ignores_removals_def
proof (intro allI impI, elim conjE)
  fix w :: world and X S
  assume "X - R = vip_role w - R" "remove_rejected w \<subseteq> R" "S \<subseteq> R"
  then show "\<exists>X'. f (w\<lparr>vip_role := X, remove_rejected := S\<rparr>) =
                 (fst (f w), (snd (f w))\<lparr>vip_role := X', remove_rejected := S\<rparr>) \<and>
              X' - R = vip_role (snd (f w)) - R \<and>
              remove_rejected (snd (f w)) \<subseteq> R"
    by (rule assms)
qed

lemma ignores_removalsE:
  assumes "ignores_removals R f"
    and "X - R = vip_role w - R" "remove_rejected w \<subseteq> R" "S \<subseteq> R"
  obtains X' where
    "f (w\<lparr>vip_role := X, remove_rejected := S\<rparr>) =
       (fst (f w), (snd (f w))\<lparr>vip_role := X', remove_rejected := S\<rparr>)"
    "X' - R = vip_role (snd (f w)) - R" "remove_rejected (snd (f w)) \<subseteq> R"
proof -
  from assms(2,3,4) have "X - R = vip_role w - R \<and> remove_rejected w \<subseteq> R \<and> S \<subseteq> R"
    by (intro conjI)
  with assms(1) [unfolded ignores_removals_def]
  have "\<exists>X'. f (w\<lparr>vip_role := X, remove_rejected := S\<rparr>) =
                 (fst (f w), (snd (f w))\<lparr>vip_role := X', remove_rejected := S\<rparr>) \<and>
              X' - R = vip_role (snd (f w)) - R \<and>
              remove_rejected (snd (f w)) \<subseteq> R"
    by (elim allE impE) assumption+
  then show thesis by (elim exE conjE) (rule that)
qed

lemma ignores_return: "ignores_removals R (\<lambda>w. (c, w))"
proof (rule ignores_removalsI)
  fix w :: world and X S
  assume "X - R = vip_role w - R" "remove_rejected w \<subseteq> R" "S \<subseteq> R"
  then show "\<exists>X'. (c, w\<lparr>vip_role := X, remove_rejected := S\<rparr>) =
              (fst (c, w), (snd (c, w))\<lparr>vip_role := X', remove_rejected := S\<rparr>) \<and>
            X' - R = vip_role (snd (c, w)) - R \<and> remove_rejected (snd (c, w)) \<subseteq> R"
    by (intro exI [of _ X]) simp
qed

lemma ignores_bind:
  assumes f: "ignores_removals R f" and g: "\<And>x. ignores_removals R (g x)"
  shows "ignores_removals R (\<lambda>w. case f w of (x, w1) \<Rightarrow> g x w1)"
proof (rule ignores_removalsI)
  fix w :: world and X S
  assume a: "X - R = vip_role w - R" "remove_rejected w \<subseteq> R" "S \<subseteq> R"
  obtain x w1 where fw: "f w = (x, w1)" by (cases "f w")
  from f a obtain X1 where
    1: "f (w\<lparr>vip_role := X, remove_rejected := S\<rparr>) =
         (fst (f w), (snd (f w))\<lparr>vip_role := X1, remove_rejected := S\<rparr>)"
       "X1 - R = vip_role (snd (f w)) - R" "remove_rejected (snd (f w)) \<subseteq> R"
    by (rule ignores_removalsE)
  from 1(2,3) fw have b: "X1 - R = vip_role w1 - R" "remove_rejected w1 \<subseteq> R" by simp_all
  from g [of x] b a(3) obtain X2 where
    2: "g x (w1\<lparr>vip_role := X1, remove_rejected := S\<rparr>) =
         (fst (g x w1), (snd (g x w1))\<lparr>vip_role := X2, remove_rejected := S\<rparr>)"
       "X2 - R = vip_role (snd (g x w1)) - R" "remove_rejected (snd (g x w1)) \<subseteq> R"
    by (rule ignores_removalsE)
  from 1(1) 2 fw
  show "\<exists>X'. (case f (w\<lparr>vip_role := X, remove_rejected := S\<rparr>) of (x, w1) \<Rightarrow> g x w1) =
              (fst (case f w of (x, w1) \<Rightarrow> g x w1),
               (snd (case f w of (x, w1) \<Rightarrow> g x w1))\<lparr>vip_role := X', remove_rejected := S\<rparr>) \<and>
            X' - R = vip_role (snd (case f w of (x, w1) \<Rightarrow> g x w1)) - R \<and>
            remove_rejected (snd (case f w of (x, w1) \<Rightarrow> g x w1)) \<subseteq> R"
    by (intro exI [of _ X2]) simp
qed

lemma ignores_tick:
  assumes "\<And>w X S. c (w\<lparr>vip_role := X, remove_rejected := S\<rparr>) = c w"
  shows "ignores_removals R (\<lambda>w. (c w, w\<lparr>ticks := Suc (ticks w)\<rparr>))"
proof (rule ignores_removalsI)
  fix w :: world and X S
  assume "X - R = vip_role w - R" "remove_rejected w \<subseteq> R" "S \<subseteq> R"
  then show "\<exists>X'. (c (w\<lparr>vip_role := X, remove_rejected := S\<rparr>),
               w\<lparr>vip_role := X, remove_rejected := S\<rparr>
                \<lparr>ticks := Suc (ticks (w\<lparr>vip_role := X, remove_rejected := S\<rparr>))\<rparr>) =
              (fst (c w, w\<lparr>ticks := Suc (ticks w)\<rparr>),
               (snd (c w, w\<lparr>ticks := Suc (ticks w)\<rparr>))\<lparr>vip_role := X', remove_rejected := S\<rparr>) \<and>
            X' - R = vip_role (snd (c w, w\<lparr>ticks := Suc (ticks w)\<rparr>)) - R \<and>
            remove_rejected (snd (c w, w\<lparr>ticks := Suc (ticks w)\<rparr>)) \<subseteq> R"
    by (intro exI [of _ X]) (simp add: assms)
qed


lemma ensureTrialRecordFor_role_only:
  "ensureTrialRecordFor m (w\<lparr>vip_role := X\<rparr>) =
     (fst (ensureTrialRecordFor m w), (snd (ensureTrialRecordFor m w))\<lparr>vip_role := X\<rparr>)"
  by (simp add: ensureTrialRecordFor_def Date_now_def Let_def split_beta split: option.splits)

lemma ensureTrialRecordFor_rejected_only:
  "ensureTrialRecordFor m (w\<lparr>remove_rejected := S\<rparr>) =
     (fst (ensureTrialRecordFor m w), (snd (ensureTrialRecordFor m w))\<lparr>remove_rejected := S\<rparr>)"
  by (simp add: ensureTrialRecordFor_def Date_now_def Let_def split_beta split: option.splits)

lemma ensureTrialRecordFor_fields:
  "vip_role (snd (ensureTrialRecordFor m w)) = vip_role w"
  "remove_rejected (snd (ensureTrialRecordFor m w)) = remove_rejected w"
  "add_rejected (snd (ensureTrialRecordFor m w)) = add_rejected w"
  "clock (snd (ensureTrialRecordFor m w)) = clock w"
  "role_cache (snd (ensureTrialRecordFor m w)) = role_cache w"
proof -
  obtain vt w' where e: "ensureTrialRecordFor m w = (vt, w')" by (cases "ensureTrialRecordFor m w")
  from ensureTrialRecordFor_frame [OF e] have f: "env w' = env w" "vip_role w' = vip_role w"
    by simp_all
  from env_fields [OF f(1)] f(2) e
  show "vip_role (snd (ensureTrialRecordFor m w)) = vip_role w"
    "remove_rejected (snd (ensureTrialRecordFor m w)) = remove_rejected w"
    "add_rejected (snd (ensureTrialRecordFor m w)) = add_rejected w"
    "clock (snd (ensureTrialRecordFor m w)) = clock w"
    "role_cache (snd (ensureTrialRecordFor m w)) = role_cache w"
    by simp_all
qed

lemma agree_insert: "X - R = V - R \<Longrightarrow> insert m X - R = insert m V - R"
  by (simp add: set_eq_iff) blast

lemma agree_remove:
  assumes "X - R = V - R" "Q \<subseteq> R" "S \<subseteq> R"
  shows "(if c \<and> m \<notin> S then X - {m} else X) - R =
         (if c \<and> m \<notin> Q then V - {m} else V) - R"
proof -
  from assms(1) have eq: "\<And>k. k \<notin> R \<Longrightarrow> (k \<in> X) = (k \<in> V)" by (simp add: set_eq_iff) blast
  show ?thesis
  proof (cases "m \<in> R")
    case True
    then have "\<And>Y. (Y - {m}) - R = Y - R" by blast
    with assms(1) show ?thesis by simp
  next
    case False
    with assms(2,3) have "m \<notin> Q" "m \<notin> S" by blast+
    with eq [OF False] assms(1) show ?thesis
      by (simp add: set_eq_iff) blast
  qed
qed

lemma setVipLifetime_roles:
  "setVipLifetime m (w\<lparr>vip_role := X, remove_rejected := S\<rparr>) =
     (fst (setVipLifetime m w),
      (snd (setVipLifetime m w))
        \<lparr>vip_role := (if vip_role_ok w \<and> m \<notin> add_rejected w then insert m X else X),
         remove_rejected := S\<rparr>)"
  by (simp add: setVipLifetime_def getVipRole_def roles_add_def Date_now_def Let_def split_beta
      ensureTrialRecordFor_rejected_only ensureTrialRecordFor_role_only)

lemma setVipLifetime_roles_after:
  "vip_role (snd (setVipLifetime m w)) =
     (if vip_role_ok w \<and> m \<notin> add_rejected w then insert m (vip_role w) else vip_role w) \<and>
   remove_rejected (snd (setVipLifetime m w)) = remove_rejected w"
  by (simp add: setVipLifetime_def getVipRole_def roles_add_def Date_now_def Let_def split_beta
      ensureTrialRecordFor_role_only ensureTrialRecordFor_fields)

lemma ignores_setVipLifetime: "ignores_removals R (setVipLifetime m)"
proof (rule ignores_removalsI)
  fix w :: world and X S
  assume a: "X - R = vip_role w - R" "remove_rejected w \<subseteq> R" "S \<subseteq> R"
  let ?goal = "\<lambda>X'. setVipLifetime m (w\<lparr>vip_role := X, remove_rejected := S\<rparr>) =
              (fst (setVipLifetime m w),
               (snd (setVipLifetime m w))\<lparr>vip_role := X', remove_rejected := S\<rparr>) \<and>
            X' - R = vip_role (snd (setVipLifetime m w)) - R \<and>
            remove_rejected (snd (setVipLifetime m w)) \<subseteq> R"
  note r = setVipLifetime_roles [where m = m and w = w and X = X and S = S]
    setVipLifetime_roles_after [where m = m and w = w]
  show "\<exists>X'. ?goal X'"
  proof (cases "vip_role_ok w \<and> m \<notin> add_rejected w")
    case False
    with r a(1,2) have "?goal X" by simp
    then show ?thesis by (rule exI)
  next
    case True
    with r a(2) agree_insert [OF a(1), of m] have "?goal (insert m X)" by simp
    then show ?thesis by (rule exI)
  qed
qed

lemma setVipToTrialRemainingOrRemove_roles:
  "setVipToTrialRemainingOrRemove m (w\<lparr>vip_role := X, remove_rejected := S\<rparr>) =
     (fst (setVipToTrialRemainingOrRemove m w),
      (snd (setVipToTrialRemainingOrRemove m w))
        \<lparr>vip_role :=
           (if \<not> vip_role_ok w then X
            else if clock w (ticks (snd (ensureTrialRecordFor m w)))
                      < snd (fst (ensureTrialRecordFor m w))
            then (if m \<in> add_rejected w then X else insert m X)
            else (if m \<in> role_cache w \<and> m \<notin> S then X - {m} else X)),
         remove_rejected := S\<rparr>)"
  by (simp add: setVipToTrialRemainingOrRemove_def getVipRole_def roles_add_def
      roles_remove_caught_def Date_now_def Let_def split_beta
      ensureTrialRecordFor_rejected_only ensureTrialRecordFor_role_only
      ensureTrialRecordFor_fields)

lemma setVipToTrialRemainingOrRemove_roles_after:
  "vip_role (snd (setVipToTrialRemainingOrRemove m w)) =
     (if \<not> vip_role_ok w then vip_role w
      else if clock w (ticks (snd (ensureTrialRecordFor m w)))
                < snd (fst (ensureTrialRecordFor m w))
      then (if m \<in> add_rejected w then vip_role w else insert m (vip_role w))
      else (if m \<in> role_cache w \<and> m \<notin> remove_rejected w then vip_role w - {m}
            else vip_role w)) \<and>
   remove_rejected (snd (setVipToTrialRemainingOrRemove m w)) = remove_rejected w"
  by (simp add: setVipToTrialRemainingOrRemove_def getVipRole_def roles_add_def
      roles_remove_caught_def Date_now_def Let_def split_beta ensureTrialRecordFor_fields)

lemma ignores_setVipToTrialRemainingOrRemove:
  "ignores_removals R (setVipToTrialRemainingOrRemove m)"
proof (rule ignores_removalsI)
  fix w :: world and X S
  assume a: "X - R = vip_role w - R" "remove_rejected w \<subseteq> R" "S \<subseteq> R"
  let ?goal = "\<lambda>X'. setVipToTrialRemainingOrRemove m (w\<lparr>vip_role := X, remove_rejected := S\<rparr>) =
              (fst (setVipToTrialRemainingOrRemove m w),
               (snd (setVipToTrialRemainingOrRemove m w))\<lparr>vip_role := X', remove_rejected := S\<rparr>) \<and>
            X' - R = vip_role (snd (setVipToTrialRemainingOrRemove m w)) - R \<and>
            remove_rejected (snd (setVipToTrialRemainingOrRemove m w)) \<subseteq> R"
  note r = setVipToTrialRemainingOrRemove_roles [where m = m and w = w and X = X and S = S]
    setVipToTrialRemainingOrRemove_roles_after [where m = m and w = w]
  consider (norole) "\<not> vip_role_ok w"
    | (add_fails) "vip_role_ok w"
        "clock w (ticks (snd (ensureTrialRecordFor m w))) < snd (fst (ensureTrialRecordFor m w))"
        "m \<in> add_rejected w"
    | (add) "vip_role_ok w"
        "clock w (ticks (snd (ensureTrialRecordFor m w))) < snd (fst (ensureTrialRecordFor m w))"
        "m \<notin> add_rejected w"
    | (remove) "vip_role_ok w"
        "\<not> clock w (ticks (snd (ensureTrialRecordFor m w))) < snd (fst (ensureTrialRecordFor m w))"
    by blast
  then show "\<exists>X'. ?goal X'"
  proof cases
    case norole
    with r a(1,2) have "?goal X" by simp
    then show ?thesis by (rule exI)
  next
    case add_fails
    with r a(1,2) have "?goal X" by simp
    then show ?thesis by (rule exI)
  next
    case add
    with r a(2) agree_insert [OF a(1), of m] have "?goal (insert m X)" by simp
    then show ?thesis by (rule exI)
  next
    case remove
    with r a(2) agree_remove [OF a, where m = m and c = "m \<in> role_cache w"]
    have "?goal (if m \<in> role_cache w \<and> m \<notin> S then X - {m} else X)" by simp
    then show ?thesis by (rule exI)
  qed
qed

lemma removeVipIfHas_roles:
  "removeVipIfHas m (w\<lparr>vip_role := X, remove_rejected := S\<rparr>) =
     (fst (removeVipIfHas m w),
      (snd (removeVipIfHas m w))
        \<lparr>vip_role := (if vip_role_ok w \<and> m \<in> role_cache w \<and> m \<notin> S then X - {m} else X),
         remove_rejected := S\<rparr>)"
  by (simp add: removeVipIfHas_def getVipRole_def roles_remove_caught_def)

lemma removeVipIfHas_roles_after:
  "vip_role (snd (removeVipIfHas m w)) =
     (if vip_role_ok w \<and> m \<in> role_cache w \<and> m \<notin> remove_rejected w then vip_role w - {m}
      else vip_role w) \<and>
   remove_rejected (snd (removeVipIfHas m w)) = remove_rejected w"
  by (simp add: removeVipIfHas_def getVipRole_def roles_remove_caught_def)

lemma ignores_removeVipIfHas: "ignores_removals R (removeVipIfHas m)"
proof (rule ignores_removalsI)
  fix w :: world and X S
  assume a: "X - R = vip_role w - R" "remove_rejected w \<subseteq> R" "S \<subseteq> R"
  let ?goal = "\<lambda>X'. removeVipIfHas m (w\<lparr>vip_role := X, remove_rejected := S\<rparr>) =
              (fst (removeVipIfHas m w),
               (snd (removeVipIfHas m w))\<lparr>vip_role := X', remove_rejected := S\<rparr>) \<and>
            X' - R = vip_role (snd (removeVipIfHas m w)) - R \<and>
            remove_rejected (snd (removeVipIfHas m w)) \<subseteq> R"
  note r = removeVipIfHas_roles [where m = m and w = w and X = X and S = S]
    removeVipIfHas_roles_after [where m = m and w = w]
  show "\<exists>X'. ?goal X'"
  proof (cases "vip_role_ok w")
    case False
    with r a(1,2) have "?goal X" by simp
    then show ?thesis by (rule exI)
  next
    case True
    with r a(2) agree_remove [OF a, where m = m and c = "m \<in> role_cache w"]
    have "?goal (if m \<in> role_cache w \<and> m \<notin> S then X - {m} else X)" by simp
    then show ?thesis by (rule exI)
  qed
qed

lemma ignores_read:
  assumes rd: "\<And>w X S. rd (w\<lparr>vip_role := X, remove_rejected := S\<rparr>) = rd w"
    and g: "\<And>v. ignores_removals R (g v)"
  shows "ignores_removals R (\<lambda>w. g (rd w) w)"
proof (rule ignores_removalsI)
  fix w :: world and X S
  assume a: "X - R = vip_role w - R" "remove_rejected w \<subseteq> R" "S \<subseteq> R"
  from g [of "rd w"] a obtain X1 where
    "g (rd w) (w\<lparr>vip_role := X, remove_rejected := S\<rparr>) =
       (fst (g (rd w) w), (snd (g (rd w) w))\<lparr>vip_role := X1, remove_rejected := S\<rparr>)"
    "X1 - R = vip_role (snd (g (rd w) w)) - R" "remove_rejected (snd (g (rd w) w)) \<subseteq> R"
    by (rule ignores_removalsE)
  then have "g (rd (w\<lparr>vip_role := X, remove_rejected := S\<rparr>)) (w\<lparr>vip_role := X, remove_rejected := S\<rparr>) =
       (fst (g (rd w) w), (snd (g (rd w) w))\<lparr>vip_role := X1, remove_rejected := S\<rparr>) \<and>
     X1 - R = vip_role (snd (g (rd w) w)) - R \<and> remove_rejected (snd (g (rd w) w)) \<subseteq> R"
    by (simp add: rd)
  then show "\<exists>X'. g (rd (w\<lparr>vip_role := X, remove_rejected := S\<rparr>)) (w\<lparr>vip_role := X, remove_rejected := S\<rparr>) =
       (fst (g (rd w) w), (snd (g (rd w) w))\<lparr>vip_role := X', remove_rejected := S\<rparr>) \<and>
     X' - R = vip_role (snd (g (rd w) w)) - R \<and> remove_rejected (snd (g (rd w) w)) \<subseteq> R"
    by (rule exI)
qed

lemma ignores_stop_or_continue:
  assumes "\<And>x. ignores_removals R (g x)"
  shows "ignores_removals R (\<lambda>w. case r of Inl e \<Rightarrow> (Inl e, w) | Inr x \<Rightarrow> g x w)"
proof (cases r)
  case (Inl e)
  have "(\<lambda>w :: world. case r of Inl e \<Rightarrow> (Inl e, w) | Inr x \<Rightarrow> g x w) = (\<lambda>w. (Inl e, w))"
    by (simp add: Inl)
  then show ?thesis by (simp only: ignores_return)
next
  case (Inr x)
  have "(\<lambda>w :: world. case r of Inl e \<Rightarrow> (Inl e, w) | Inr x \<Rightarrow> g x w) = g x"
    by (simp add: Inr)
  then show ?thesis by (simp only: assms)
qed

lemma ignores_grant_loop: "ignores_removals R (grant_loop es n)"
proof (induction es arbitrary: n)
  case Nil
  have "grant_loop [] n = (\<lambda>w. (Inr n, w))" by (rule ext) simp
  then show ?case by (simp only: ignores_return)
next
  case (Cons ua es)
  obtain u a where ua: "ua = (u, a)" by (cases ua)
  let ?step = "\<lambda>w. case setVipLifetime u w of
      (r, w1) \<Rightarrow> (case r of Inl e \<Rightarrow> (Inl e, w1) | Inr x \<Rightarrow> grant_loop es (Suc n) w1)"
  have shape: "grant_loop (ua # es) n =
      (\<lambda>w. (if a \<and> u \<in> guild_members w then ?step else grant_loop es n) w)"
    by (rule ext) (simp add: ua grant_loop_Cons del: grant_loop.simps split: prod.splits sum.splits)
  have step: "ignores_removals R ?step"
    by (rule ignores_bind [OF ignores_setVipLifetime])
       (rule ignores_stop_or_continue, rule Cons.IH)
  have "ignores_removals R (\<lambda>w. (if a \<and> u \<in> guild_members w then ?step else grant_loop es n) w)"
  proof (rule ignores_read [where rd = "\<lambda>w. a \<and> u \<in> guild_members w"
        and g = "\<lambda>v. if v then ?step else grant_loop es n"])
    show "\<And>w X S. (a \<and> u \<in> guild_members (w\<lparr>vip_role := X, remove_rejected := S\<rparr>)) =
        (a \<and> u \<in> guild_members w)" by simp
    show "\<And>v. ignores_removals R (if v then ?step else grant_loop es n)"
      using step Cons.IH [of n] by simp
  qed
  with shape show ?case by (simp only:)
qed

lemma ignores_downgrade_loop: "ignores_removals R (downgrade_loop us elig n)"
proof (induction us arbitrary: n)
  case Nil
  have "downgrade_loop [] elig n = (\<lambda>w. (Inr n, w))" by (rule ext) simp
  then show ?case by (simp only: ignores_return)
next
  case (Cons u us)
  let ?step = "\<lambda>w. case setVipToTrialRemainingOrRemove u w of
      (r, w1) \<Rightarrow> (case r of Inl e \<Rightarrow> (Inl e, w1) | Inr x \<Rightarrow> downgrade_loop us elig (Suc n) w1)"
  have shape: "downgrade_loop (u # us) elig n =
      (\<lambda>w. (if map_of elig u \<noteq> Some True \<and> u \<in> guild_members w then ?step
            else downgrade_loop us elig n) w)"
    by (rule ext)
       (simp add: downgrade_loop_Cons del: downgrade_loop.simps split: prod.splits sum.splits)
  have step: "ignores_removals R ?step"
    by (rule ignores_bind [OF ignores_setVipToTrialRemainingOrRemove])
       (rule ignores_stop_or_continue, rule Cons.IH)
  have "ignores_removals R
      (\<lambda>w. (if map_of elig u \<noteq> Some True \<and> u \<in> guild_members w then ?step
            else downgrade_loop us elig n) w)"
  proof (rule ignores_read [where rd = "\<lambda>w. map_of elig u \<noteq> Some True \<and> u \<in> guild_members w"
        and g = "\<lambda>v. if v then ?step else downgrade_loop us elig n"])
    show "\<And>w X S. (map_of elig u \<noteq> Some True \<and>
          u \<in> guild_members (w\<lparr>vip_role := X, remove_rejected := S\<rparr>)) =
        (map_of elig u \<noteq> Some True \<and> u \<in> guild_members w)" by simp
    show "\<And>v. ignores_removals R (if v then ?step else downgrade_loop us elig n)"
      using step Cons.IH [of n] by simp
  qed
  with shape show ?case by (simp only:)
qed

lemma ignores_expiry_loop: "ignores_removals R (expiry_loop rs n)"
proof (induction rs arbitrary: n)
  case Nil
  have "expiry_loop [] n = (\<lambda>w. (Inr n, w))" by (rule ext) simp
  then show ?case by (simp only: ignores_return)
next
  case (Cons r rs)
  let ?skip = "or0 (vip_until (snd r)) = 0 \<or> LIFETIME_UNTIL \<le> or0 (vip_until (snd r))"
  let ?step = "\<lambda>w. case removeVipIfHas (fst r) w of
      (r1, w1) \<Rightarrow> (case r1 of Inl e \<Rightarrow> (Inl e, w1) | Inr x \<Rightarrow> expiry_loop rs (Suc n) w1)"
  let ?after = "\<lambda>later w. (if later \<or> fst r \<notin> guild_members w then expiry_loop rs n else ?step) w"
  let ?tick = "\<lambda>w. (clock w (ticks w) < or0 (vip_until (snd r)), w\<lparr>ticks := Suc (ticks w)\<rparr>)"
  have shape: "expiry_loop (r # rs) n =
      (if ?skip then expiry_loop rs n
       else (\<lambda>w. case ?tick w of (later, w1) \<Rightarrow> ?after later w1))"
    by (rule ext)
       (simp add: expiry_loop_Cons del: expiry_loop.simps split: prod.splits sum.splits)
  have step: "ignores_removals R ?step"
    by (rule ignores_bind [OF ignores_removeVipIfHas])
       (rule ignores_stop_or_continue, rule Cons.IH)
  have after: "ignores_removals R (?after later)" for later
  proof (rule ignores_read [where rd = "\<lambda>w. later \<or> fst r \<notin> guild_members w"
        and g = "\<lambda>v. if v then expiry_loop rs n else ?step"])
    show "\<And>w X S. (later \<or> fst r \<notin> guild_members (w\<lparr>vip_role := X, remove_rejected := S\<rparr>)) =
        (later \<or> fst r \<notin> guild_members w)" by simp
    show "\<And>v. ignores_removals R (if v then expiry_loop rs n else ?step)"
      using step Cons.IH [of n] by simp
  qed
  have tick: "ignores_removals R ?tick"
    by (rule ignores_tick) simp
  have "ignores_removals R (\<lambda>w. case ?tick w of (later, w1) \<Rightarrow> ?after later w1)"
    using tick after by (rule ignores_bind)
  with Cons.IH [of n] have
    "ignores_removals R (if ?skip then expiry_loop rs n
       else (\<lambda>w. case ?tick w of (later, w1) \<Rightarrow> ?after later w1))"
    by (simp only: if_split) blast
  with shape show ?case by (simp only:)
qed

lemma ignores_sync_pass: "ignores_removals R sync_pass"
proof -
  let ?tick = "\<lambda>w. (clock w (ticks w), w\<lparr>ticks := Suc (ticks w)\<rparr>)"
  let ?L = "\<lambda>rows. js_set (map fst (filter (\<lambda>r. LIFETIME_UNTIL \<le> or0 (vip_until (snd r))) rows))"
  let ?finish = "\<lambda>started elig ensured downgraded removed w.
      case ?tick w of (finished, w4) \<Rightarrow>
        (Inr \<lparr>lifetimeEnsured = ensured, lifetimeDowngraded = downgraded,
              expiredRemoved = removed, ms = finished - started,
              totalSheet = length elig\<rparr>, w4)"
  let ?expiry = "\<lambda>started elig rows ensured downgraded w.
      case expiry_loop rows 0 w of (r3, w3) \<Rightarrow>
        (case r3 of Inl e \<Rightarrow> (Inl e, w3)
         | Inr removed \<Rightarrow> ?finish started elig ensured downgraded removed w3)"
  let ?downgrade = "\<lambda>started elig rows ensured w.
      case downgrade_loop (?L rows) elig 0 w of (r2, w2) \<Rightarrow>
        (case r2 of Inl e \<Rightarrow> (Inl e, w2)
         | Inr downgraded \<Rightarrow> ?expiry started elig rows ensured downgraded w2)"
  let ?grant = "\<lambda>started elig rows w.
      case grant_loop elig 0 w of (r1, w1) \<Rightarrow>
        (case r1 of Inl e \<Rightarrow> (Inl e, w1)
         | Inr ensured \<Rightarrow> ?downgrade started elig rows ensured w1)"
  let ?body = "\<lambda>started v.
      if \<not> fst v then (\<lambda>w. (Inl GuildFetchFailed, w))
      else (case fst (snd v) of Inl e \<Rightarrow> (\<lambda>w. (Inl e, w))
            | Inr elig \<Rightarrow> ?grant started elig (snd (snd v)))"
  let ?rd = "\<lambda>w. (guild_ok w, getEligibilityMap w, db w)"
  have shape: "sync_pass = (\<lambda>w0. case ?tick w0 of (started, w) \<Rightarrow> ?body started (?rd w) w)"
    by (rule ext)
       (simp add: sync_pass_def Date_now_def Let_def split: prod.splits sum.splits)
  have finish: "ignores_removals R (?finish started elig ensured downgraded removed)"
    for started elig ensured downgraded removed
    by (rule ignores_bind [OF ignores_tick]) (simp_all add: ignores_return)
  have expiry: "ignores_removals R (?expiry started elig rows ensured downgraded)"
    for started elig rows ensured downgraded
    by (rule ignores_bind [OF ignores_expiry_loop])
       (rule ignores_stop_or_continue, rule finish)
  have downgrade: "ignores_removals R (?downgrade started elig rows ensured)"
    for started elig rows ensured
    by (rule ignores_bind [OF ignores_downgrade_loop])
       (rule ignores_stop_or_continue, rule expiry)
  have grant: "ignores_removals R (?grant started elig rows)" for started elig rows
    by (rule ignores_bind [OF ignores_grant_loop])
       (rule ignores_stop_or_continue, rule downgrade)
  have body: "ignores_removals R (?body started v)" for started v
  proof (cases "fst v")
    case False
    then show ?thesis by (simp only: if_True if_False not_False_eq_True ignores_return)
  next
    case True
    show ?thesis
    proof (cases "fst (snd v)")
      case (Inl e)
      with True show ?thesis
        by (simp only: if_False not_True_eq_False sum.case ignores_return)
    next
      case (Inr elig)
      with True grant [of started elig "snd (snd v)"] show ?thesis
        by (simp only: if_False not_True_eq_False sum.case)
    qed
  qed
  have read: "ignores_removals R (\<lambda>w. ?body started (?rd w) w)" for started
    by (rule ignores_read [where rd = ?rd and g = "?body started"])
       (simp_all add: getEligibilityMap_def body cong: option.case_cong)
  have "ignores_removals R (\<lambda>w0. case ?tick w0 of (started, w) \<Rightarrow> ?body started (?rd w) w)"
  proof (rule ignores_bind [OF ignores_tick])
    show "\<And>w X S. clock (w\<lparr>vip_role := X, remove_rejected := S\<rparr>)
        (ticks (w\<lparr>vip_role := X, remove_rejected := S\<rparr>)) = clock w (ticks w)"
      by simp
    show "\<And>started. ignores_removals R (\<lambda>w. ?body started (?rd w) w)"
      by (rule read)
  qed
  with shape show ?thesis by (simp only:)
qed

lemma ignores_syncFromSheetOptimised: "ignores_removals R syncFromSheetOptimised"
proof (rule ignores_removalsI)
  fix w :: world and X S
  assume a: "X - R = vip_role w - R" "remove_rejected w \<subseteq> R" "S \<subseteq> R"
  let ?p = "w\<lparr>vip_role := X, remove_rejected := S\<rparr>"
  let ?goal = "\<lambda>X'. syncFromSheetOptimised ?p =
      (fst (syncFromSheetOptimised w),
       (snd (syncFromSheetOptimised w))\<lparr>vip_role := X', remove_rejected := S\<rparr>) \<and>
      X' - R = vip_role (snd (syncFromSheetOptimised w)) - R \<and>
      remove_rejected (snd (syncFromSheetOptimised w)) \<subseteq> R"
  show "\<exists>X'. ?goal X'"
  proof (cases "syncRunning w")
    case True
    with a have "?goal X" by (simp add: syncFromSheetOptimised_unfold)
    then show ?thesis by (rule exI)
  next
    case False
    let ?l = "w\<lparr>syncRunning := True\<rparr>"
    have locked: "?p\<lparr>syncRunning := True\<rparr> = ?l\<lparr>vip_role := X, remove_rejected := S\<rparr>"
      by simp
    from a have "X - R = vip_role ?l - R" "remove_rejected ?l \<subseteq> R" by simp_all
    with ignores_sync_pass [of R] obtain X1 where
      1: "sync_pass (?l\<lparr>vip_role := X, remove_rejected := S\<rparr>) =
           (fst (sync_pass ?l), (snd (sync_pass ?l))\<lparr>vip_role := X1, remove_rejected := S\<rparr>)"
         "X1 - R = vip_role (snd (sync_pass ?l)) - R"
         "remove_rejected (snd (sync_pass ?l)) \<subseteq> R"
      using a(3) by (rule ignores_removalsE)
    from False have run: "syncFromSheetOptimised w =
        (case fst (sync_pass ?l) of Inl e \<Rightarrow> Inl e | Inr s \<Rightarrow> Inr (Completed s),
         (snd (sync_pass ?l))\<lparr>syncRunning := False\<rparr>)"
      by (simp add: syncFromSheetOptimised_unfold split_beta)
    from False have "syncFromSheetOptimised ?p =
        (case fst (sync_pass (?p\<lparr>syncRunning := True\<rparr>)) of
           Inl e \<Rightarrow> Inl e | Inr s \<Rightarrow> Inr (Completed s),
         (snd (sync_pass (?p\<lparr>syncRunning := True\<rparr>)))\<lparr>syncRunning := False\<rparr>)"
      by (simp add: syncFromSheetOptimised_unfold split_beta)
    with 1 run have "?goal X1" by (simp add: locked)
    then show ?thesis by (rule exI)
  qed
qed

subsection \<open>The stored trial\<close>





subsection \<open>The worlds of a pass\<close>

text \<open>
  No operation of the pass writes the lock, so every world an operation passes through
  has the lock as the operation found it; and the worlds listed for an operation end in
  the world the operation returns.
\<close>

lemma ensureTrialRecordFor_lock:
  "syncRunning (snd (ensureTrialRecordFor m w)) = syncRunning w"
  using ensureTrialRecordFor_frame [of m w "fst (ensureTrialRecordFor m w)" "snd (ensureTrialRecordFor m w)"]
  by simp

lemma setVipLifetime_lock: "syncRunning (snd (setVipLifetime m w)) = syncRunning w"
  using setVipLifetime_frame [of m w "fst (setVipLifetime m w)" "snd (setVipLifetime m w)"]
  by simp

lemma setVipToTrialRemainingOrRemove_lock:
  "syncRunning (snd (setVipToTrialRemainingOrRemove m w)) = syncRunning w"
  using setVipToTrialRemainingOrRemove_frame [of m w "fst (setVipToTrialRemainingOrRemove m w)"
      "snd (setVipToTrialRemainingOrRemove m w)"]
  by simp

lemma removeVipIfHas_lock: "syncRunning (snd (removeVipIfHas m w)) = syncRunning w"
  using removeVipIfHas_frame [of m w "fst (removeVipIfHas m w)" "snd (removeVipIfHas m w)"]
  by simp

lemma grant_loop_lock: "syncRunning (snd (grant_loop es n w)) = syncRunning w"
  using grant_loop_frame [of es n w "fst (grant_loop es n w)" "snd (grant_loop es n w)"]
  by simp

lemma downgrade_loop_lock: "syncRunning (snd (downgrade_loop us elig n w)) = syncRunning w"
  using downgrade_loop_frame [of us elig n w "fst (downgrade_loop us elig n w)"
      "snd (downgrade_loop us elig n w)"]
  by simp

lemma expiry_loop_lock: "syncRunning (snd (expiry_loop rs n w)) = syncRunning w"
  using expiry_loop_frame [of rs n w "fst (expiry_loop rs n w)" "snd (expiry_loop rs n w)"]
  by simp

lemma setVipLifetime_worlds_lock:
  "v \<in> set (setVipLifetime_worlds m w) \<Longrightarrow> syncRunning v = syncRunning w"
  by (auto simp: setVipLifetime_worlds_def getVipRole_def roles_add_def
      ensureTrialRecordFor_lock setVipLifetime_lock split: if_splits)

lemma setVipToTrialRemainingOrRemove_worlds_lock:
  "v \<in> set (setVipToTrialRemainingOrRemove_worlds m w) \<Longrightarrow> syncRunning v = syncRunning w"
  by (auto simp: setVipToTrialRemainingOrRemove_worlds_def getVipRole_def roles_add_def
      roles_remove_caught_def Date_now_def Let_def split_beta
      ensureTrialRecordFor_lock setVipToTrialRemainingOrRemove_lock split: if_splits)

lemma removeVipIfHas_worlds_lock:
  "v \<in> set (removeVipIfHas_worlds m w) \<Longrightarrow> syncRunning v = syncRunning w"
  by (auto simp: removeVipIfHas_worlds_def getVipRole_def removeVipIfHas_lock split: if_splits)

lemma grant_loop_worlds_lock:
  "v \<in> set (grant_loop_worlds es w) \<Longrightarrow> syncRunning v = syncRunning w"
proof (induction es arbitrary: w)
  case Nil
  then show ?case by simp
next
  case (Cons ua es)
  obtain u a where ua: "ua = (u, a)" by (cases ua)
  obtain r1 w1 where op: "setVipLifetime u w = (r1, w1)" by (cases "setVipLifetime u w")
  with setVipLifetime_lock [of u w] have l: "syncRunning w1 = syncRunning w" by simp
  from Cons.prems ua op consider "v \<in> set (grant_loop_worlds es w)"
    | "v \<in> set (setVipLifetime_worlds u w)"
    | "v \<in> set (grant_loop_worlds es w1)"
    by (cases r1) (auto simp: fetchMemberSafe_def split: if_splits)
  then show ?case
  proof cases
    case 1
    then show ?thesis by (rule Cons.IH)
  next
    case 2
    then show ?thesis by (rule setVipLifetime_worlds_lock)
  next
    case 3
    from Cons.IH [OF this] l show ?thesis by simp
  qed
qed

lemma downgrade_loop_worlds_lock:
  "v \<in> set (downgrade_loop_worlds us elig w) \<Longrightarrow> syncRunning v = syncRunning w"
proof (induction us arbitrary: w)
  case Nil
  then show ?case by simp
next
  case (Cons u us)
  obtain r1 w1 where op: "setVipToTrialRemainingOrRemove u w = (r1, w1)"
    by (cases "setVipToTrialRemainingOrRemove u w")
  with setVipToTrialRemainingOrRemove_lock [of u w] have l: "syncRunning w1 = syncRunning w"
    by simp
  from Cons.prems op consider "v \<in> set (downgrade_loop_worlds us elig w)"
    | "v \<in> set (setVipToTrialRemainingOrRemove_worlds u w)"
    | "v \<in> set (downgrade_loop_worlds us elig w1)"
    by (cases r1) (auto simp: fetchMemberSafe_def split: if_splits)
  then show ?case
  proof cases
    case 1
    then show ?thesis by (rule Cons.IH)
  next
    case 2
    then show ?thesis by (rule setVipToTrialRemainingOrRemove_worlds_lock)
  next
    case 3
    from Cons.IH [OF this] l show ?thesis by simp
  qed
qed

lemma expiry_loop_worlds_lock:
  "v \<in> set (expiry_loop_worlds rs w) \<Longrightarrow> syncRunning v = syncRunning w"
proof (induction rs arbitrary: w)
  case Nil
  then show ?case by simp
next
  case (Cons r rs)
  let ?wt = "w\<lparr>ticks := Suc (ticks w)\<rparr>"
  obtain r1 w1 where op: "removeVipIfHas (fst r) ?wt = (r1, w1)"
    by (cases "removeVipIfHas (fst r) ?wt")
  with removeVipIfHas_lock [of "fst r" ?wt] have l: "syncRunning w1 = syncRunning w" by simp
  from Cons.prems op consider "v \<in> set (expiry_loop_worlds rs w)"
    | "v = ?wt"
    | "v \<in> set (expiry_loop_worlds rs ?wt)"
    | "v \<in> set (removeVipIfHas_worlds (fst r) ?wt)"
    | "v \<in> set (expiry_loop_worlds rs w1)"
    by (cases r1) (auto simp: fetchMemberSafe_def Date_now_def Let_def split: if_splits)
  then show ?case
  proof cases
    case 1
    then show ?thesis by (rule Cons.IH)
  next
    case 2
    then show ?thesis by simp
  next
    case 3
    from Cons.IH [OF this] show ?thesis by simp
  next
    case 4
    from removeVipIfHas_worlds_lock [OF this] show ?thesis by simp
  next
    case 5
    from Cons.IH [OF this] l show ?thesis by simp
  qed
qed

lemma sync_pass_worlds_lock:
  assumes "v \<in> set (sync_pass_worlds w)"
  shows "syncRunning v = syncRunning w"
proof -
  let ?wt = "w\<lparr>ticks := Suc (ticks w)\<rparr>"
  let ?L = "js_set (map fst (filter (\<lambda>r. LIFETIME_UNTIL \<le> or0 (vip_until (snd r))) (db w)))"
  show ?thesis
  proof (cases "getEligibilityMap ?wt")
    case (Inl e)
    with assms have "v = ?wt"
      by (simp add: sync_pass_worlds_def Date_now_def split: if_splits)
    then show ?thesis by simp
  next
    case (Inr elig)
    obtain r1 w1 where g: "grant_loop elig 0 ?wt = (r1, w1)" by (cases "grant_loop elig 0 ?wt")
    obtain r2 w2 where d: "downgrade_loop ?L elig 0 w1 = (r2, w2)"
      by (cases "downgrade_loop ?L elig 0 w1")
    obtain r3 w3 where x: "expiry_loop (db w) 0 w2 = (r3, w3)"
      by (cases "expiry_loop (db w) 0 w2")
    from g grant_loop_lock [of elig 0 ?wt] have l1: "syncRunning w1 = syncRunning w" by simp
    from d downgrade_loop_lock [of ?L elig 0 w1] l1 have l2: "syncRunning w2 = syncRunning w"
      by simp
    from x expiry_loop_lock [of "db w" 0 w2] l2 have l3: "syncRunning w3 = syncRunning w"
      by simp
    from assms Inr g d x consider "v = ?wt"
      | "v \<in> set (grant_loop_worlds elig ?wt)"
      | "v \<in> set (downgrade_loop_worlds ?L elig w1)"
      | "v \<in> set (expiry_loop_worlds (db w) w2)"
      | "v = w3\<lparr>ticks := Suc (ticks w3)\<rparr>"
      by (cases r1; cases r2; cases r3)
         (auto simp: sync_pass_worlds_def Date_now_def Let_def split: if_splits)
    then show ?thesis
    proof cases
      case 1
      then show ?thesis by simp
    next
      case 2
      from grant_loop_worlds_lock [OF this] show ?thesis by simp
    next
      case 3
      from downgrade_loop_worlds_lock [OF this] l1 show ?thesis by simp
    next
      case 4
      from expiry_loop_worlds_lock [OF this] l2 show ?thesis by simp
    next
      case 5
      with l3 show ?thesis by simp
    qed
  qed
qed

lemma last_chain: "last (w # xs @ ys) = last (last (w # xs) # ys)"
  by (cases ys) (simp_all add: last_append)

lemma last_skip: "last (w # v # xs) = last (v # xs)" "last [w] = w"
  by simp_all

lemma expiry_loop_worlds_Cons:
  "expiry_loop_worlds (r # rs) w =
     (if or0 (vip_until (snd r)) = 0 \<or> LIFETIME_UNTIL \<le> or0 (vip_until (snd r))
      then expiry_loop_worlds rs w
      else if clock w (ticks w) < or0 (vip_until (snd r)) \<or> fst r \<notin> guild_members w
      then w\<lparr>ticks := Suc (ticks w)\<rparr> # expiry_loop_worlds rs (w\<lparr>ticks := Suc (ticks w)\<rparr>)
      else w\<lparr>ticks := Suc (ticks w)\<rparr> #
           removeVipIfHas_worlds (fst r) (w\<lparr>ticks := Suc (ticks w)\<rparr>) @
           (case removeVipIfHas (fst r) (w\<lparr>ticks := Suc (ticks w)\<rparr>) of
              (Inl e, w1) \<Rightarrow> []
            | (Inr x, w1) \<Rightarrow> expiry_loop_worlds rs w1))"
  by (simp add: fetchMemberSafe_def Date_now_def Let_def)

lemma setVipLifetime_worlds_last:
  "last (w # setVipLifetime_worlds m w) = snd (setVipLifetime m w)"
  by (simp add: setVipLifetime_worlds_def setVipLifetime_def getVipRole_def roles_add_def)

lemma setVipToTrialRemainingOrRemove_worlds_last:
  "last (w # setVipToTrialRemainingOrRemove_worlds m w) =
     snd (setVipToTrialRemainingOrRemove m w)"
  by (simp add: setVipToTrialRemainingOrRemove_worlds_def setVipToTrialRemainingOrRemove_def
      getVipRole_def roles_add_def Let_def split_beta)

lemma removeVipIfHas_worlds_last:
  "last (w # removeVipIfHas_worlds m w) = snd (removeVipIfHas m w)"
  by (simp add: removeVipIfHas_worlds_def removeVipIfHas_def getVipRole_def)

lemma grant_loop_worlds_last:
  "last (w # grant_loop_worlds es w) = snd (grant_loop es n w)"
proof (induction es arbitrary: w n)
  case Nil
  show ?case by simp
next
  case (Cons ua es)
  obtain u a where ua: "ua = (u, a)" by (cases ua)
  obtain r1 w1 where op: "setVipLifetime u w = (r1, w1)" by (cases "setVipLifetime u w")
  with setVipLifetime_worlds_last [of w u] have l: "last (w # setVipLifetime_worlds u w) = w1"
    by simp
  show ?case
  proof (cases "a \<and> u \<in> guild_members w")
    case False
    with ua Cons.IH [of w n] show ?thesis by (auto simp: fetchMemberSafe_def)
  next
    case True
    show ?thesis
    proof (cases r1)
      case (Inl e)
      with True ua op l show ?thesis by (simp add: fetchMemberSafe_def)
    next
      case (Inr x)
      with True ua op l Cons.IH [of w1 "Suc n"] show ?thesis
        by (simp add: fetchMemberSafe_def last_chain [of w "setVipLifetime_worlds u w"]
            del: last.simps)
    qed
  qed
qed


lemma downgrade_loop_worlds_last:
  "last (w # downgrade_loop_worlds us elig w) = snd (downgrade_loop us elig n w)"
proof (induction us arbitrary: w n)
  case Nil
  show ?case by simp
next
  case (Cons u us)
  obtain r1 w1 where op: "setVipToTrialRemainingOrRemove u w = (r1, w1)"
    by (cases "setVipToTrialRemainingOrRemove u w")
  with setVipToTrialRemainingOrRemove_worlds_last [of w u]
  have l: "last (w # setVipToTrialRemainingOrRemove_worlds u w) = w1" by simp
  show ?case
  proof (cases "map_of elig u \<noteq> Some True \<and> u \<in> guild_members w")
    case False
    with Cons.IH [of w n] show ?thesis by (auto simp: fetchMemberSafe_def)
  next
    case True
    show ?thesis
    proof (cases r1)
      case (Inl e)
      with True op l show ?thesis by (simp add: fetchMemberSafe_def)
    next
      case (Inr x)
      with True op l Cons.IH [of w1 "Suc n"] show ?thesis
        by (simp add: fetchMemberSafe_def
            last_chain [of w "setVipToTrialRemainingOrRemove_worlds u w"] del: last.simps)
    qed
  qed
qed

lemma expiry_loop_worlds_last:
  "last (w # expiry_loop_worlds rs w) = snd (expiry_loop rs n w)"
proof (induction rs arbitrary: w n)
  case Nil
  show ?case by simp
next
  case (Cons r rs)
  let ?wt = "w\<lparr>ticks := Suc (ticks w)\<rparr>"
  obtain r1 w1 where op: "removeVipIfHas (fst r) ?wt = (r1, w1)"
    by (cases "removeVipIfHas (fst r) ?wt")
  with removeVipIfHas_worlds_last [of ?wt "fst r"]
  have l: "last (?wt # removeVipIfHas_worlds (fst r) ?wt) = w1" by simp
  note unfold = expiry_loop_Cons expiry_loop_worlds_Cons last_skip
  show ?case
  proof (cases "or0 (vip_until (snd r)) = 0 \<or> LIFETIME_UNTIL \<le> or0 (vip_until (snd r))")
    case True
    with Cons.IH [of w n] show ?thesis
      by (simp add: unfold del: expiry_loop.simps expiry_loop_worlds.simps last.simps)
  next
    case False
    note live = this
    show ?thesis
    proof (cases "clock w (ticks w) < or0 (vip_until (snd r)) \<or> fst r \<notin> guild_members w")
      case True
      with live Cons.IH [of ?wt n] show ?thesis
        by (simp add: unfold del: expiry_loop.simps expiry_loop_worlds.simps last.simps)
    next
      case False
      show ?thesis
      proof (cases r1)
        case (Inl e)
        with live False op l show ?thesis
          by (simp add: unfold del: expiry_loop.simps expiry_loop_worlds.simps last.simps)
      next
        case (Inr x)
        with live False op l Cons.IH [of w1 "Suc n"] show ?thesis
          by (simp add: unfold last_chain [of ?wt "removeVipIfHas_worlds (fst r) ?wt"]
              del: expiry_loop.simps expiry_loop_worlds.simps last.simps)
      qed
    qed
  qed
qed

lemma sync_pass_worlds_last: "last (w # sync_pass_worlds w) = snd (sync_pass w)"
proof -
  let ?wt = "w\<lparr>ticks := Suc (ticks w)\<rparr>"
  let ?L = "js_set (map fst (filter (\<lambda>r. LIFETIME_UNTIL \<le> or0 (vip_until (snd r))) (db w)))"
  show ?thesis
  proof (cases "guild_ok w")
    case False
    then show ?thesis by (simp add: sync_pass_worlds_def sync_pass_def Date_now_def)
  next
    case True
    show ?thesis
    proof (cases "getEligibilityMap ?wt")
      case (Inl e)
      with True show ?thesis by (simp add: sync_pass_worlds_def sync_pass_def Date_now_def)
    next
      case (Inr elig)
      obtain r1 w1 where g: "grant_loop elig 0 ?wt = (r1, w1)" by (cases "grant_loop elig 0 ?wt")
      obtain r2 w2 where d: "downgrade_loop ?L elig 0 w1 = (r2, w2)"
        by (cases "downgrade_loop ?L elig 0 w1")
      obtain r3 w3 where x: "expiry_loop (db w) 0 w2 = (r3, w3)"
        by (cases "expiry_loop (db w) 0 w2")
      from g grant_loop_worlds_last [of ?wt elig 0]
      have l1: "last (?wt # grant_loop_worlds elig ?wt) = w1" by simp
      from d downgrade_loop_worlds_last [of w1 ?L elig 0]
      have l2: "last (w1 # downgrade_loop_worlds ?L elig w1) = w2" by simp
      from x expiry_loop_worlds_last [of w2 "db w" 0]
      have l3: "last (w2 # expiry_loop_worlds (db w) w2) = w3" by simp
      show ?thesis
      proof (cases r1)
        case Inl
        with True Inr g l1 show ?thesis
          by (simp add: sync_pass_worlds_def sync_pass_def Date_now_def Let_def last_skip del: last.simps)
      next
        case ensured: (Inr n1)
        show ?thesis
        proof (cases r2)
          case Inl
          with True Inr g d l1 l2 ensured show ?thesis
            by (simp add: sync_pass_worlds_def sync_pass_def Date_now_def Let_def last_skip
                last_chain [of ?wt "grant_loop_worlds elig ?wt"] del: last.simps)
        next
          case downgraded: (Inr n2)
          show ?thesis
          proof (cases r3)
            case Inl
            with True Inr g d x l1 l2 l3 ensured downgraded show ?thesis
              by (simp add: sync_pass_worlds_def sync_pass_def Date_now_def Let_def last_skip
                  last_chain [of ?wt "grant_loop_worlds elig ?wt"]
                  last_chain [of w1 "downgrade_loop_worlds ?L elig w1"] del: last.simps)
          next
            case removed: (Inr n3)
            with True Inr g d x l1 l2 l3 ensured downgraded show ?thesis
              by (simp add: sync_pass_worlds_def sync_pass_def Date_now_def Let_def last_skip
                  last_chain [of ?wt "grant_loop_worlds elig ?wt"]
                  last_chain [of w1 "downgrade_loop_worlds ?L elig w1"]
                  last_chain [of w2 "expiry_loop_worlds (db w) w2"] del: last.simps)
          qed
        qed
      qed
    qed
  qed
qed
section \<open>The lifetime invariant\<close>

text \<open>
  Claim C1, as amended. After a pass that completes, for every member id that is found in
  the guild (in particular every such id of the roster), the stored \<open>vipUntil\<close> is at least
  \<open>LIFETIME_UNTIL\<close> if and only if the eligibility map maps the id to true. The timestamps
  are ordinary ones: the member's stored \<open>trial_until\<close>, the member's join time plus 30
  days and every clock reading plus 30 days lie below \<open>LIFETIME_UNTIL\<close>.
\<close>

theorem lifetime_iff_approved:
  assumes run: "syncFromSheetOptimised w = (Inr (Completed s), w')"
    and elig: "getEligibilityMap w = Inr elig"
    and member: "k \<in> guild_members w"
    and trial_bound: "\<forall>r. select_user (db w) k = Some r \<longrightarrow> or0 (trial_until r) < LIFETIME_UNTIL"
    and joined_bound: "or0 (joinedTimestamp w k) + ONE_MONTH < LIFETIME_UNTIL"
    and clock_bound: "\<forall>i. clock w i + ONE_MONTH < LIFETIME_UNTIL"
  shows "(LIFETIME_UNTIL \<le> stored_vip w' k) = (map_of elig k = Some True)"
  using assms by (rule sync_lifetime_iff)

theorem lifetime_iff_approved_witness:
  "getEligibilityMap scenario_A = Inr [(js ''123'', True)] \<and>
   LIFETIME_UNTIL \<le> stored_vip (snd (syncFromSheetOptimised scenario_A)) (js ''123'')"
proof -
  let ?s = "\<lparr>lifetimeEnsured = 1, lifetimeDowngraded = 0, expiredRemoved = 0, ms = 0,
             totalSheet = 1\<rparr>"
  have "fst (syncFromSheetOptimised scenario_A) = Inr (Completed ?s)"
    by (simp add: scenario_A_def run_defs)
  then have run: "syncFromSheetOptimised scenario_A
      = (Inr (Completed ?s), snd (syncFromSheetOptimised scenario_A))"
    by (simp add: prod_eq_iff)
  have elig: "getEligibilityMap scenario_A = Inr [(js ''123'', True)]"
    by (simp add: scenario_A_def run_defs)
  have member: "js ''123'' \<in> guild_members scenario_A" by (simp add: scenario_A_def)
  have b1: "\<forall>r. select_user (db scenario_A) (js ''123'') = Some r \<longrightarrow> or0 (trial_until r) < LIFETIME_UNTIL"
    by (simp add: scenario_A_def select_user_def)
  have b2: "or0 (joinedTimestamp scenario_A (js ''123'')) + ONE_MONTH < LIFETIME_UNTIL"
    by (simp add: scenario_A_def or0_def ONE_MONTH_def LIFETIME_UNTIL_def)
  have b3: "\<forall>i. clock scenario_A i + ONE_MONTH < LIFETIME_UNTIL"
    by (simp add: scenario_A_def ONE_MONTH_def LIFETIME_UNTIL_def)
  from lifetime_iff_approved [OF run elig member b1 b2 b3] elig
  show ?thesis by simp
qed

text \<open>
  The claim as stated covers every id of the roster. An approved id that is not found in
  the guild is skipped by the grant phase: in scenario A with member 123 gone from the
  guild, the pass completes, 123 is approved, and no record is written.
\<close>

theorem lifetime_iff_approved_counterexample:
  "fst (syncFromSheetOptimised (scenario_A\<lparr>guild_members := {}\<rparr>)) =
     Inr (Completed \<lparr>lifetimeEnsured = 0, lifetimeDowngraded = 0, expiredRemoved = 0,
                      ms = 0, totalSheet = 1\<rparr>) \<and>
   getEligibilityMap (scenario_A\<lparr>guild_members := {}\<rparr>) = Inr [(js ''123'', True)] \<and>
   map_of [(js ''123'', True)] (js ''123'') = Some True \<and>
   stored_vip (snd (syncFromSheetOptimised (scenario_A\<lparr>guild_members := {}\<rparr>))) (js ''123'') = 0 \<and>
   \<not> LIFETIME_UNTIL \<le>
       stored_vip (snd (syncFromSheetOptimised (scenario_A\<lparr>guild_members := {}\<rparr>))) (js ''123'')"
  by (simp add: scenario_A_def run_defs)

section \<open>Rejected role changes\<close>

text \<open>
  Claim C2, as amended. A rejected role removal is caught where it happens and changes
  nothing else: whatever set \<open>R\<close> of members the platform rejects removals for, the pass
  returns the same result (the same summary, or the same error) as on a platform that
  rejects no removal, it leaves the same table, and every member outside \<open>R\<close> ends with
  the same role state.
\<close>

theorem removal_rejections_isolated:
  "fst (syncFromSheetOptimised (w\<lparr>remove_rejected := R\<rparr>)) =
     fst (syncFromSheetOptimised (w\<lparr>remove_rejected := {}\<rparr>)) \<and>
   db (snd (syncFromSheetOptimised (w\<lparr>remove_rejected := R\<rparr>))) =
     db (snd (syncFromSheetOptimised (w\<lparr>remove_rejected := {}\<rparr>))) \<and>
   vip_role (snd (syncFromSheetOptimised (w\<lparr>remove_rejected := R\<rparr>))) - R =
     vip_role (snd (syncFromSheetOptimised (w\<lparr>remove_rejected := {}\<rparr>))) - R"
proof -
  let ?r = "w\<lparr>remove_rejected := R\<rparr>"
  have same: "?r\<lparr>vip_role := vip_role w, remove_rejected := {}\<rparr> = w\<lparr>remove_rejected := {}\<rparr>"
    by simp
  have "vip_role w - R = vip_role ?r - R" "remove_rejected ?r \<subseteq> R" "{} \<subseteq> R" by simp_all
  with ignores_syncFromSheetOptimised [of R] obtain X' where
    "syncFromSheetOptimised (?r\<lparr>vip_role := vip_role w, remove_rejected := {}\<rparr>) =
       (fst (syncFromSheetOptimised ?r),
        (snd (syncFromSheetOptimised ?r))\<lparr>vip_role := X', remove_rejected := {}\<rparr>)"
    "X' - R = vip_role (snd (syncFromSheetOptimised ?r)) - R"
    by (rule ignores_removalsE)
  then show ?thesis by (simp add: same)
qed

theorem removal_rejections_isolated_witness:
  "fst (syncFromSheetOptimised (scenario_C\<lparr>remove_rejected := {js ''123''}\<rparr>)) =
     Inr (Completed \<lparr>lifetimeEnsured = 1, lifetimeDowngraded = 0, expiredRemoved = 1,
                      ms = 0, totalSheet = 1\<rparr>) \<and>
   stored_vip (snd (syncFromSheetOptimised (scenario_C\<lparr>remove_rejected := {js ''123''}\<rparr>))) (js ''456'')
     = LIFETIME_UNTIL"
proof -
  have clean: "fst (syncFromSheetOptimised (scenario_C\<lparr>remove_rejected := {}\<rparr>)) =
     Inr (Completed \<lparr>lifetimeEnsured = 1, lifetimeDowngraded = 0, expiredRemoved = 1,
                      ms = 0, totalSheet = 1\<rparr>)"
    "stored_vip (snd (syncFromSheetOptimised (scenario_C\<lparr>remove_rejected := {}\<rparr>))) (js ''456'')
     = LIFETIME_UNTIL"
    by (simp_all add: scenario_C_def run_defs)
  from removal_rejections_isolated [where w = scenario_C and R = "{js ''123''}"]
  have "fst (syncFromSheetOptimised (scenario_C\<lparr>remove_rejected := {js ''123''}\<rparr>)) =
      fst (syncFromSheetOptimised (scenario_C\<lparr>remove_rejected := {}\<rparr>))"
    "db (snd (syncFromSheetOptimised (scenario_C\<lparr>remove_rejected := {js ''123''}\<rparr>))) =
      db (snd (syncFromSheetOptimised (scenario_C\<lparr>remove_rejected := {}\<rparr>)))"
    by simp_all
  with clean show ?thesis by (simp add: stored_vip_def)
qed

text \<open>
  The claim as stated also covers a rejected grant. \<open>setVipLifetime\<close> awaits
  \<open>member.roles.add(role)\<close> without a catch: with members 7 and 123 both approved and in
  the guild and the grant rejected for 7, the pass throws at 7 and member 123 is never
  reached.
\<close>

theorem removal_rejections_isolated_counterexample:
  "getEligibilityMap
     (scenario_A\<lparr>sheet := Some [[js ''discord_id'', js ''lifetime_vip''], [js ''7'', js ''YES''], [js ''123'', js ''YES'']],
                 guild_members := {js ''7'', js ''123''}, add_rejected := {js ''7''}\<rparr>)
     = Inr [(js ''7'', True), (js ''123'', True)] \<and>
   fst (syncFromSheetOptimised
     (scenario_A\<lparr>sheet := Some [[js ''discord_id'', js ''lifetime_vip''], [js ''7'', js ''YES''], [js ''123'', js ''YES'']],
                 guild_members := {js ''7'', js ''123''}, add_rejected := {js ''7''}\<rparr>))
     = Inl (RoleAddRejected (js ''7'')) \<and>
   select_user (db (snd (syncFromSheetOptimised
     (scenario_A\<lparr>sheet := Some [[js ''discord_id'', js ''lifetime_vip''], [js ''7'', js ''YES''], [js ''123'', js ''YES'']],
                 guild_members := {js ''7'', js ''123''}, add_rejected := {js ''7''}\<rparr>)))) (js ''123'') = None \<and>
   js ''123'' \<notin> vip_role (snd (syncFromSheetOptimised
     (scenario_A\<lparr>sheet := Some [[js ''discord_id'', js ''lifetime_vip''], [js ''7'', js ''YES''], [js ''123'', js ''YES'']],
                 guild_members := {js ''7'', js ''123''}, add_rejected := {js ''7''}\<rparr>)))"
  by (simp add: scenario_A_def run_defs)

section \<open>Running the pass twice\<close>

text \<open>
  Claim C3, as amended. When the pass is run twice in succession and both runs complete,
  on a table with one row per \<open>user_id\<close> and ordinary timestamps, the second summary has
  \<open>lifetimeDowngraded = 0\<close>, and its \<open>lifetimeEnsured\<close> equals that of the first run: the
  number of approved roster ids found in the guild.
\<close>

theorem second_pass_counts:
  assumes run1: "syncFromSheetOptimised w = (Inr (Completed s1), w1)"
    and run2: "syncFromSheetOptimised w1 = (Inr (Completed s2), w2)"
    and elig: "getEligibilityMap w = Inr elig"
    and pk: "distinct (map fst (db w))"
    and trial_bound:
      "\<forall>k r. select_user (db w) k = Some r \<longrightarrow> or0 (trial_until r) < LIFETIME_UNTIL"
    and joined_bound: "\<forall>k. or0 (joinedTimestamp w k) + ONE_MONTH < LIFETIME_UNTIL"
    and clock_bound: "\<forall>i. clock w i + ONE_MONTH < LIFETIME_UNTIL"
  shows "lifetimeDowngraded s2 = 0 \<and>
         lifetimeEnsured s2 = lifetimeEnsured s1 \<and>
         lifetimeEnsured s2 = length (filter (\<lambda>ua. snd ua \<and> fst ua \<in> guild_members w) elig)"
proof -
  let ?ws = "w\<lparr>syncRunning := True, ticks := Suc (ticks w)\<rparr>"
  let ?ws1 = "w1\<lparr>syncRunning := True, ticks := Suc (ticks w1)\<rparr>"
  let ?L = "js_set (map fst (filter (\<lambda>r. LIFETIME_UNTIL \<le> or0 (vip_until (snd r))) (db w1)))"
  from run1 obtain e1 a1 a2 a3 where
    "\<not> syncRunning w" "getEligibilityMap w = Inr e1" and
    g1: "grant_loop e1 0 ?ws = (Inr (lifetimeEnsured s1), a1)"
    by (rule sync_CompletedE)
  with elig have e1: "e1 = elig" by simp
  from sync_env [of w] run1 have env1: "env w1 = env w" by simp
  from env_fields [OF env1] have same: "sheet w1 = sheet w" "guild_members w1 = guild_members w"
    and maps: "toLowerCase w1 = toLowerCase w" "toUpperCase w1 = toUpperCase w"
    by simp_all
  from sync_distinct [OF pk] run1 have pk1: "distinct (map fst (db w1))" by simp
  from run2 obtain e2 v1 v2 v3 where
    "\<not> syncRunning w1" and ge2: "getEligibilityMap w1 = Inr e2" and
    g2: "grant_loop e2 0 ?ws1 = (Inr (lifetimeEnsured s2), v1)" and
    d2: "downgrade_loop ?L e2 0 v1 = (Inr (lifetimeDowngraded s2), v2)"
    by (rule sync_CompletedE)
  from ge2 same maps elig have e2: "e2 = elig"
    by (simp add: getEligibilityMap_def cong: option.case_cong)
  from grant_loop_frame [OF g2] have "env v1 = env w1" by (simp add: pass_start)
  with env1 have "env v1 = env w" by simp
  from env_fields [OF this] have gm: "guild_members v1 = guild_members w" by simp
  have "\<forall>u\<in>set ?L. map_of elig u = Some True \<or> u \<notin> guild_members v1"
  proof
    fix u
    assume "u \<in> set ?L"
    then obtain r where r: "(u, r) \<in> set (db w1)" "LIFETIME_UNTIL \<le> or0 (vip_until r)"
      by (auto simp: js_set_props)
    with pk1 have "select_user (db w1) u = Some r" by (simp add: select_user_def)
    with r(2) have stored: "LIFETIME_UNTIL \<le> stored_vip w1 u" by (simp add: stored_vip_def)
    show "map_of elig u = Some True \<or> u \<notin> guild_members v1"
    proof (cases "u \<in> guild_members w")
      case True
      from trial_bound have
        "\<forall>r. select_user (db w) u = Some r \<longrightarrow> or0 (trial_until r) < LIFETIME_UNTIL"
        by blast
      from sync_lifetime_iff [OF run1 elig True this] joined_bound clock_bound stored
      show ?thesis by simp
    next
      case False
      with gm show ?thesis by simp
    qed
  qed
  from downgrade_loop_skip [OF this, of 0] d2 e2 have "lifetimeDowngraded s2 = 0" by simp
  moreover from grant_loop_count [OF g1] e1
  have "lifetimeEnsured s1 = length (filter (\<lambda>ua. snd ua \<and> fst ua \<in> guild_members w) elig)"
    by simp
  moreover from grant_loop_count [OF g2] e2 same
  have "lifetimeEnsured s2 = length (filter (\<lambda>ua. snd ua \<and> fst ua \<in> guild_members w) elig)"
    by simp
  ultimately show ?thesis by simp
qed

theorem second_pass_counts_witness:
  "fst (syncFromSheetOptimised scenario_B) =
     Inr (Completed \<lparr>lifetimeEnsured = 0, lifetimeDowngraded = 1, expiredRemoved = 0,
                      ms = 0, totalSheet = 1\<rparr>) \<and>
   fst (syncFromSheetOptimised (snd (syncFromSheetOptimised scenario_B))) =
     Inr (Completed \<lparr>lifetimeEnsured = 0, lifetimeDowngraded = 0, expiredRemoved = 0,
                      ms = 0, totalSheet = 1\<rparr>)"
proof -
  let ?s1 = "\<lparr>lifetimeEnsured = 0, lifetimeDowngraded = 1, expiredRemoved = 0, ms = 0,
              totalSheet = 1\<rparr>"
  let ?w1 = "snd (syncFromSheetOptimised scenario_B)"
  have first: "fst (syncFromSheetOptimised scenario_B) = Inr (Completed ?s1)"
    by (simp add: scenario_B_def run_defs)
  then have run1: "syncFromSheetOptimised scenario_B = (Inr (Completed ?s1), ?w1)"
    by (simp add: prod_eq_iff)
  obtain s2 where second: "fst (syncFromSheetOptimised ?w1) = Inr (Completed s2)"
    and rest: "expiredRemoved s2 = 0" "ms s2 = 0" "totalSheet s2 = 1"
    by (simp add: scenario_B_def run_defs)
  then have run2: "syncFromSheetOptimised ?w1 = (Inr (Completed s2), snd (syncFromSheetOptimised ?w1))"
    by (simp add: prod_eq_iff)
  have elig: "getEligibilityMap scenario_B = Inr [(js ''456'', True)]"
    by (simp add: scenario_B_def run_defs)
  have pk: "distinct (map fst (db scenario_B))" by (simp add: scenario_B_def)
  have b1: "\<forall>k r. select_user (db scenario_B) k = Some r \<longrightarrow> or0 (trial_until r) < LIFETIME_UNTIL"
    by (simp add: scenario_B_def select_user_def or0_def LIFETIME_UNTIL_def)
  have b2: "\<forall>k. or0 (joinedTimestamp scenario_B k) + ONE_MONTH < LIFETIME_UNTIL"
    by (simp add: scenario_B_def or0_def ONE_MONTH_def LIFETIME_UNTIL_def)
  have b3: "\<forall>i. clock scenario_B i + ONE_MONTH < LIFETIME_UNTIL"
    by (simp add: scenario_B_def ONE_MONTH_def LIFETIME_UNTIL_def)
  from second_pass_counts [OF run1 run2 elig pk b1 b2 b3]
  have "lifetimeDowngraded s2 = 0" "lifetimeEnsured s2 = 0" by simp_all
  with rest have "s2 = \<lparr>lifetimeEnsured = 0, lifetimeDowngraded = 0, expiredRemoved = 0,
                      ms = 0, totalSheet = 1\<rparr>"
    by simp
  with first second show ?thesis by simp
qed

text \<open>
  The claim as stated asks for all three counts to be zero. \<open>lifetimeEnsured\<close> is
  incremented for every approved member that is found, whether or not anything changes:
  in scenario A it is 1 in the first run and 1 again in the second.
\<close>

theorem second_pass_counts_counterexample:
  "fst (syncFromSheetOptimised scenario_A) =
     Inr (Completed \<lparr>lifetimeEnsured = 1, lifetimeDowngraded = 0, expiredRemoved = 0,
                      ms = 0, totalSheet = 1\<rparr>) \<and>
   fst (syncFromSheetOptimised (snd (syncFromSheetOptimised scenario_A))) =
     Inr (Completed \<lparr>lifetimeEnsured = 1, lifetimeDowngraded = 0, expiredRemoved = 0,
                      ms = 0, totalSheet = 1\<rparr>)"
  by (simp add: scenario_A_def run_defs)

section \<open>Grace demotion\<close>




section \<open>Roster without a required column\<close>

text \<open>
  Claim C5, as amended. For every roster with at least one data row (two rows or more)
  whose header row, put in lower case by the runtime and trimmed, lacks \<open>discord_id\<close> or
  \<open>lifetime_vip\<close>, building the eligibility map fails with the error that names the
  missing column; a pass given such a roster aborts (with that error when the guild is
  reached) and leaves the table and the roles as they were. The header cells are compared
  as the source compares them: after \<open>toLowerCase\<close>, whatever the runtime's mapping is, and
  after \<open>trim\<close>, which removes every white space and line terminator of ECMAScript.
\<close>

theorem schema_failure_aborts:
  assumes roster: "sheet w = Some rows" "2 \<le> length rows"
    and lacks: "js ''discord_id'' \<notin> header_names (toLowerCase w) rows \<or>
                js ''lifetime_vip'' \<notin> header_names (toLowerCase w) rows"
  shows "(getEligibilityMap w = Inl DiscordIdColumnNotFound \<or>
          getEligibilityMap w = Inl LifetimeVipColumnNotFound) \<and>
         (js ''discord_id'' \<notin> header_names (toLowerCase w) rows \<longrightarrow>
            getEligibilityMap w = Inl DiscordIdColumnNotFound) \<and>
         (js ''discord_id'' \<in> header_names (toLowerCase w) rows \<longrightarrow>
            getEligibilityMap w = Inl LifetimeVipColumnNotFound) \<and>
         (\<not> syncRunning w \<longrightarrow> (\<exists>e. fst (syncFromSheetOptimised w) = Inl e)) \<and>
         (\<not> syncRunning w \<and> guild_ok w \<longrightarrow>
            fst (syncFromSheetOptimised w) = Inl DiscordIdColumnNotFound \<or>
            fst (syncFromSheetOptimised w) = Inl LifetimeVipColumnNotFound) \<and>
         db (snd (syncFromSheetOptimised w)) = db w \<and>
         vip_role (snd (syncFromSheetOptimised w)) = vip_role w"
proof -
  let ?headers = "map (\<lambda>h. trim (toLowerCase w h)) (hd rows)"
  let ?d = "indexOf ?headers (js ''discord_id'')"
  let ?l = "indexOf ?headers (js ''lifetime_vip'')"
  have names: "(?d = None) = (js ''discord_id'' \<notin> header_names (toLowerCase w) rows)"
    "(?l = None) = (js ''lifetime_vip'' \<notin> header_names (toLowerCase w) rows)"
    by (simp_all add: indexOf_None header_names_def)
  from roster have ge: "getEligibilityMap w =
      (case ?d of None \<Rightarrow> Inl DiscordIdColumnNotFound
       | Some di \<Rightarrow> (case ?l of None \<Rightarrow> Inl LifetimeVipColumnNotFound
                      | Some li \<Rightarrow> Inr (eligibility_rows (toUpperCase w) di li (tl rows) [])))"
    by (simp add: getEligibilityMap_def eligibility_of_rows_def Let_def)
  have first: "getEligibilityMap w = Inl DiscordIdColumnNotFound"
    if "js ''discord_id'' \<notin> header_names (toLowerCase w) rows"
    using that names(1) ge by simp
  have second: "getEligibilityMap w = Inl LifetimeVipColumnNotFound"
    if "js ''discord_id'' \<in> header_names (toLowerCase w) rows"
  proof -
    from that names(1) obtain di where di: "?d = Some di" by (cases ?d) simp_all
    from that lacks names(2) have "?l = None" by simp
    with di ge show ?thesis by simp
  qed
  from first second obtain e where e: "getEligibilityMap w = Inl e"
    "e = DiscordIdColumnNotFound \<or> e = LifetimeVipColumnNotFound"
    by (cases "js ''discord_id'' \<in> header_names (toLowerCase w) rows") simp_all
  let ?w = "w\<lparr>syncRunning := True\<rparr>"
  from e(1) have "getEligibilityMap ?w = Inl e"
    by (simp add: getEligibilityMap_def cong: option.case_cong)
  from sync_pass_aborts_early [OF this] obtain e' where
    p: "sync_pass ?w = (Inl e', ?w\<lparr>ticks := Suc (ticks ?w)\<rparr>)" "guild_ok w \<longrightarrow> e' = e"
    by auto
  have pass: "(\<not> syncRunning w \<longrightarrow> (\<exists>e. fst (syncFromSheetOptimised w) = Inl e)) \<and>
         (\<not> syncRunning w \<and> guild_ok w \<longrightarrow>
            fst (syncFromSheetOptimised w) = Inl DiscordIdColumnNotFound \<or>
            fst (syncFromSheetOptimised w) = Inl LifetimeVipColumnNotFound) \<and>
         db (snd (syncFromSheetOptimised w)) = db w \<and>
         vip_role (snd (syncFromSheetOptimised w)) = vip_role w"
  proof (cases "syncRunning w")
    case True
    then show ?thesis by (simp add: syncFromSheetOptimised_unfold)
  next
    case False
    with p e(2) show ?thesis by (auto simp: syncFromSheetOptimised_unfold)
  qed
  from e first second pass show ?thesis by blast
qed

theorem schema_failure_aborts_witness:
  "js ''lifetime_vip'' \<notin>
     header_names ascii_lower [[js ''discord_id'', js ''name''], [js ''123'', js ''x'']] \<and>
   fst (syncFromSheetOptimised
          (scenario_B\<lparr>sheet := Some [[js ''discord_id'', js ''name''], [js ''123'', js ''x'']]\<rparr>))
     = Inl LifetimeVipColumnNotFound \<and>
   db (snd (syncFromSheetOptimised
          (scenario_B\<lparr>sheet := Some [[js ''discord_id'', js ''name''], [js ''123'', js ''x'']]\<rparr>)))
     = db scenario_B"
proof -
  let ?rows = "[[js ''discord_id'', js ''name''], [js ''123'', js ''x'']]"
  let ?w = "scenario_B\<lparr>sheet := Some ?rows\<rparr>"
  have lower: "toLowerCase ?w = ascii_lower" by (simp add: scenario_B_def)
  have lacks: "js ''lifetime_vip'' \<notin> header_names ascii_lower ?rows"
    by (simp add: header_names_def trim_def js_def ascii_lower_def js_whitespace_def)
  then have either: "js ''discord_id'' \<notin> header_names (toLowerCase ?w) ?rows \<or>
      js ''lifetime_vip'' \<notin> header_names (toLowerCase ?w) ?rows"
    unfolding lower by (rule disjI2)
  have a: "sheet ?w = Some ?rows" by simp
  have b: "2 \<le> length ?rows" by simp
  have which: "fst (syncFromSheetOptimised ?w) = Inl LifetimeVipColumnNotFound"
    by (simp add: scenario_B_def run_defs)
  from schema_failure_aborts [OF a b either]
  have "db (snd (syncFromSheetOptimised ?w)) = db ?w" by (elim conjE)
  then have "db (snd (syncFromSheetOptimised ?w)) = db scenario_B" by simp
  with lacks which show ?thesis by (intro conjI)
qed

text \<open>
  The claim as stated covers every roster. A roster of fewer than two rows returns the
  empty map before the headers are read: in scenario B with a sheet that holds only the
  header row \<open>name\<close>, no error is raised, the pass completes, and the downgrade phase
  rewrites the record of member 123.
\<close>

theorem schema_failure_aborts_counterexample:
  "js ''discord_id'' \<notin> header_names ascii_lower [[js ''name'']] \<and>
   toLowerCase (scenario_B\<lparr>sheet := Some [[js ''name'']]\<rparr>) = ascii_lower \<and>
   getEligibilityMap (scenario_B\<lparr>sheet := Some [[js ''name'']]\<rparr>) = Inr [] \<and>
   fst (syncFromSheetOptimised (scenario_B\<lparr>sheet := Some [[js ''name'']]\<rparr>)) =
     Inr (Completed \<lparr>lifetimeEnsured = 0, lifetimeDowngraded = 1, expiredRemoved = 0,
                      ms = 0, totalSheet = 0\<rparr>) \<and>
   db (scenario_B\<lparr>sheet := Some [[js ''name'']]\<rparr>) =
     [(js ''123'', \<lparr>vip_until = Some LIFETIME_UNTIL, trial_until = Some 5000\<rparr>)] \<and>
   db (snd (syncFromSheetOptimised (scenario_B\<lparr>sheet := Some [[js ''name'']]\<rparr>))) =
     [(js ''123'', \<lparr>vip_until = Some 5000, trial_until = Some 5000\<rparr>)]"
  by (simp add: scenario_B_def run_defs header_names_def)

section \<open>The trial window\<close>




section \<open>Single-flight guard\<close>

lemma sync_ran:
  "\<not> syncRunning v \<Longrightarrow>
     fst (syncFromSheetOptimised v) \<noteq> Inr Skipped \<and>
     \<not> syncRunning (snd (syncFromSheetOptimised v))"
  by (simp add: syncFromSheetOptimised_unfold split: prod.splits sum.splits)

text \<open>
  Claim C7. An invocation that finds the lock taken returns \<open>Skipped\<close>, passes through no
  world of its own and leaves the whole world (table, roles and everything else) as it
  was. An invocation that finds the lock free takes the lock before anything else, runs
  the pass from the world with the lock taken, and releases the lock last: the worlds it
  passes through are the world with the lock just taken, the worlds of the pass (which
  end in the world the pass returns) and the world with the lock released. In every one
  of these worlds but the last the lock is taken, so an invocation that arrives there,
  while the pass is running, is skipped and changes nothing. Whether the pass returns a
  summary or throws, the lock is free afterwards, so the next invocation is not skipped.
\<close>

theorem single_flight_guard:
  "(syncRunning w \<longrightarrow>
      syncFromSheetOptimised_run w = (Inr Skipped, []) \<and>
      syncFromSheetOptimised w = (Inr Skipped, w)) \<and>
   (\<not> syncRunning w \<longrightarrow>
      snd (syncFromSheetOptimised_run w) =
        w\<lparr>syncRunning := True\<rparr> # sync_pass_worlds (w\<lparr>syncRunning := True\<rparr>) @
        [snd (syncFromSheetOptimised w)] \<and>
      last (w\<lparr>syncRunning := True\<rparr> # sync_pass_worlds (w\<lparr>syncRunning := True\<rparr>)) =
        snd (sync_pass (w\<lparr>syncRunning := True\<rparr>)) \<and>
      (\<forall>v \<in> set (butlast (snd (syncFromSheetOptimised_run w))).
         syncRunning v \<and> syncFromSheetOptimised_run v = (Inr Skipped, []) \<and>
         syncFromSheetOptimised v = (Inr Skipped, v)) \<and>
      fst (syncFromSheetOptimised w) = fst (syncFromSheetOptimised_run w) \<and>
      fst (syncFromSheetOptimised w) =
        (case fst (sync_pass (w\<lparr>syncRunning := True\<rparr>)) of
           Inl e \<Rightarrow> Inl e | Inr s \<Rightarrow> Inr (Completed s)) \<and>
      snd (syncFromSheetOptimised w) =
        (snd (sync_pass (w\<lparr>syncRunning := True\<rparr>)))\<lparr>syncRunning := False\<rparr> \<and>
      fst (syncFromSheetOptimised w) \<noteq> Inr Skipped \<and>
      \<not> syncRunning (snd (syncFromSheetOptimised w)) \<and>
      fst (syncFromSheetOptimised (snd (syncFromSheetOptimised w))) \<noteq> Inr Skipped)"
proof (intro conjI impI)
  assume "syncRunning w"
  then show "syncFromSheetOptimised_run w = (Inr Skipped, [])"
    and "syncFromSheetOptimised w = (Inr Skipped, w)"
    by (simp_all add: syncFromSheetOptimised_run_def syncFromSheetOptimised_unfold)
next
  assume free: "\<not> syncRunning w"
  let ?l = "w\<lparr>syncRunning := True\<rparr>"
  from free show worlds: "snd (syncFromSheetOptimised_run w) =
      ?l # sync_pass_worlds ?l @ [snd (syncFromSheetOptimised w)]"
    by (simp add: syncFromSheetOptimised_run_def syncFromSheetOptimised_unfold Let_def split_beta)
  show "last (?l # sync_pass_worlds ?l) = snd (sync_pass ?l)"
    by (rule sync_pass_worlds_last)
  show "\<forall>v \<in> set (butlast (snd (syncFromSheetOptimised_run w))).
         syncRunning v \<and> syncFromSheetOptimised_run v = (Inr Skipped, []) \<and>
         syncFromSheetOptimised v = (Inr Skipped, v)"
  proof
    fix v
    assume "v \<in> set (butlast (snd (syncFromSheetOptimised_run w)))"
    with worlds have "v = ?l \<or> v \<in> set (sync_pass_worlds ?l)"
      by (simp add: butlast_append)
    then have "syncRunning v"
    proof
      assume "v = ?l"
      then show ?thesis by simp
    next
      assume "v \<in> set (sync_pass_worlds ?l)"
      from sync_pass_worlds_lock [OF this] show ?thesis by simp
    qed
    then show "syncRunning v \<and> syncFromSheetOptimised_run v = (Inr Skipped, []) \<and>
         syncFromSheetOptimised v = (Inr Skipped, v)"
      by (simp add: syncFromSheetOptimised_run_def syncFromSheetOptimised_unfold)
  qed
  show "fst (syncFromSheetOptimised w) = fst (syncFromSheetOptimised_run w)"
    by (simp add: syncFromSheetOptimised_def split_beta)
  from free show "fst (syncFromSheetOptimised w) =
        (case fst (sync_pass ?l) of Inl e \<Rightarrow> Inl e | Inr s \<Rightarrow> Inr (Completed s))"
    and "snd (syncFromSheetOptimised w) = (snd (sync_pass ?l))\<lparr>syncRunning := False\<rparr>"
    by (simp_all add: syncFromSheetOptimised_unfold split_beta)
  from sync_ran [OF free] show "fst (syncFromSheetOptimised w) \<noteq> Inr Skipped"
    and released: "\<not> syncRunning (snd (syncFromSheetOptimised w))"
    by simp_all
  from sync_ran [OF released]
  show "fst (syncFromSheetOptimised (snd (syncFromSheetOptimised w))) \<noteq> Inr Skipped"
    by simp
qed

theorem single_flight_guard_witness:
  "syncFromSheetOptimised (scenario_A\<lparr>syncRunning := True\<rparr>) =
     (Inr Skipped, scenario_A\<lparr>syncRunning := True\<rparr>) \<and>
   length (snd (syncFromSheetOptimised_run scenario_A)) = 7 \<and>
   js ''123'' \<in> vip_role (snd (syncFromSheetOptimised_run scenario_A) ! 2) \<and>
   db (snd (syncFromSheetOptimised_run scenario_A) ! 2) = [] \<and>
   syncRunning (snd (syncFromSheetOptimised_run scenario_A) ! 2) \<and>
   syncFromSheetOptimised (snd (syncFromSheetOptimised_run scenario_A) ! 2) =
     (Inr Skipped, snd (syncFromSheetOptimised_run scenario_A) ! 2) \<and>
   \<not> syncRunning (snd (syncFromSheetOptimised scenario_A)) \<and>
   fst (syncFromSheetOptimised (snd (syncFromSheetOptimised scenario_A))) \<noteq> Inr Skipped"
proof -
  let ?ws = "snd (syncFromSheetOptimised_run scenario_A)"
  have len: "length ?ws = 7"
    by (simp add: scenario_A_def worlds_defs run_defs)
  have third: "js ''123'' \<in> vip_role (?ws ! 2)" "db (?ws ! 2) = []"
    by (simp_all add: scenario_A_def worlds_defs run_defs)
  from len have "?ws ! 2 = butlast ?ws ! 2" by (simp add: nth_butlast)
  moreover from len have "butlast ?ws ! 2 \<in> set (butlast ?ws)" by simp
  ultimately have inside: "?ws ! 2 \<in> set (butlast ?ws)" by simp
  have free: "\<not> syncRunning scenario_A" by (simp add: scenario_A_def)
  from single_flight_guard [of scenario_A] free inside
  have "syncRunning (?ws ! 2)"
    "syncFromSheetOptimised (?ws ! 2) = (Inr Skipped, ?ws ! 2)"
    "\<not> syncRunning (snd (syncFromSheetOptimised scenario_A))"
    "fst (syncFromSheetOptimised (snd (syncFromSheetOptimised scenario_A))) \<noteq> Inr Skipped"
    by blast+
  moreover from single_flight_guard [of "scenario_A\<lparr>syncRunning := True\<rparr>"]
  have "syncFromSheetOptimised (scenario_A\<lparr>syncRunning := True\<rparr>) =
     (Inr Skipped, scenario_A\<lparr>syncRunning := True\<rparr>)"
    by simp
  ultimately show ?thesis using len third by (intro conjI)
qed

section \<open>Status query\<close>



section \<open>An approved member with an expired record\<close>

text \<open>
  Claim C9, as amended. Let a member be approved by the roster and found in the guild,
  with a stored \<open>vip_until\<close> that is non-zero, below \<open>LIFETIME_UNTIL\<close> and not after any
  reading of the clock. In a pass that completes, the grant phase ends with the member
  holding the role and the record at \<open>LIFETIME_UNTIL\<close>; the expiry phase, which walks the
  rows read before the grant phase, visits the member (the member is counted in
  \<open>expiredRemoved\<close>) and asks for the removal of the role when the cached member object
  lists the role; the pass ends with the record at \<open>LIFETIME_UNTIL\<close>, and with the role
  absent exactly when the cached member object listed the role and the platform
  accepted the removal. Otherwise the member keeps the role that the grant phase gave.
\<close>

theorem approved_expired_member_after_pass:
  assumes run: "syncFromSheetOptimised w = (Inr (Completed s), w')"
    and elig: "getEligibilityMap w = Inr elig"
    and appr: "map_of elig k = Some True"
    and member: "k \<in> guild_members w"
    and row: "select_user (db w) k = Some r"
    and expired: "or0 (vip_until r) \<noteq> 0" "or0 (vip_until r) < LIFETIME_UNTIL"
      "\<forall>i. or0 (vip_until r) \<le> clock w i"
  shows "(\<exists>w1. grant_loop elig 0 (snd (Date_now (w\<lparr>syncRunning := True\<rparr>)))
                = (Inr (lifetimeEnsured s), w1) \<and>
              k \<in> vip_role w1 \<and> stored_vip w1 k = LIFETIME_UNTIL) \<and>
         1 \<le> expiredRemoved s \<and>
         stored_vip w' k = LIFETIME_UNTIL \<and>
         (k \<notin> vip_role w') = (k \<in> role_cache w \<and> k \<notin> remove_rejected w)"
proof -
  let ?ws = "w\<lparr>syncRunning := True, ticks := Suc (ticks w)\<rparr>"
  from run obtain elig' w1 w2 w3 where
    "\<not> syncRunning w" "getEligibilityMap w = Inr elig'" and
    g: "grant_loop elig' 0 ?ws = (Inr (lifetimeEnsured s), w1)" and
    d: "downgrade_loop
       (js_set (map fst (filter (\<lambda>r. LIFETIME_UNTIL \<le> or0 (vip_until (snd r))) (db w))))
       elig' 0 w1 = (Inr (lifetimeDowngraded s), w2)" and
    x: "expiry_loop (db w) 0 w2 = (Inr (expiredRemoved s), w3)" and
    w': "w' = w3\<lparr>ticks := Suc (ticks w3), syncRunning := False\<rparr>"
    by (rule sync_CompletedE)
  with elig have same: "elig' = elig" by simp
  have keys: "distinct (map fst elig)" using elig by (rule getEligibilityMap_keys)
  with appr have inlist: "(k, True) \<in> set elig" by simp
  from member have m0: "k \<in> guild_members ?ws" by simp
  from grant_loop_effect [OF keys inlist m0 g [unfolded same]]
  obtain wa wb u where op: "setVipLifetime k wa = (Inr u, wb)"
    and after: "select_user (db w1) k = select_user (db wb) k"
      "(k \<in> vip_role w1) = (k \<in> vip_role wb)"
    by blast
  from setVipLifetime_effect [OF op] after obtain t where
    k1: "k \<in> vip_role w1"
      "select_user (db w1) k = Some \<lparr>vip_until = Some LIFETIME_UNTIL, trial_until = Some t\<rparr>"
    by auto
  from grant_loop_frame [OF g] have e1: "env w1 = env w" by (simp add: pass_start)
  from downgrade_loop_frame [OF d] appr same k1 have
    k2: "select_user (db w2) k = Some \<lparr>vip_until = Some LIFETIME_UNTIL, trial_until = Some t\<rparr>"
      "k \<in> vip_role w2"
    and e2: "env w2 = env w1"
    by simp_all
  from e1 e2 have "env w2 = env w" by simp
  from env_fields [OF this] have f2: "clock w2 = clock w" "guild_members w2 = guild_members w"
    "remove_rejected w2 = remove_rejected w" "role_cache w2 = role_cache w" by simp_all
  from row have inrows: "(k, r) \<in> set (db w)"
    by (simp add: select_user_def map_of_SomeD)
  from expired(3) member f2 have at2: "\<forall>i. or0 (vip_until r) \<le> clock w2 i"
    "k \<in> guild_members w2"
    by simp_all
  from expiry_loop_visits [OF x inrows expired(1,2) at2] have counted: "1 \<le> expiredRemoved s"
    by simp
  have k3: "(k \<notin> vip_role w3) = (k \<in> role_cache w \<and> k \<notin> remove_rejected w)"
  proof (cases "k \<in> role_cache w \<and> k \<notin> remove_rejected w")
    case True
    with f2 have "k \<in> role_cache w2" "k \<notin> remove_rejected w2" by simp_all
    from expiry_loop_effect [OF x inrows expired(1,2) at2 this] True show ?thesis by simp
  next
    case False
    with f2 have "k \<notin> role_cache w2 \<or> k \<in> remove_rejected w2" by simp
    from expiry_loop_unremoved [OF x this] k2(2) False show ?thesis by simp
  qed
  from expiry_loop_frame [OF x] have "db w3 = db w2" by simp
  with k2 k3 w' have final: "stored_vip w' k = LIFETIME_UNTIL"
    "(k \<notin> vip_role w') = (k \<in> role_cache w \<and> k \<notin> remove_rejected w)"
    by (simp_all add: stored_vip_def or0_def)
  from g same k1 have "grant_loop elig 0 (snd (Date_now (w\<lparr>syncRunning := True\<rparr>)))
                = (Inr (lifetimeEnsured s), w1) \<and>
              k \<in> vip_role w1 \<and> stored_vip w1 k = LIFETIME_UNTIL"
    by (simp add: Date_now_def stored_vip_def or0_def)
  with final counted show ?thesis by blast
qed

theorem approved_expired_member_after_pass_witness:
  "stored_vip (snd (syncFromSheetOptimised
      (scenario_A\<lparr>db := [(js ''123'', \<lparr>vip_until = Some 500, trial_until = Some 500\<rparr>)],
                  vip_role := {js ''123''}, role_cache := {js ''123''}\<rparr>)))
      (js ''123'') = LIFETIME_UNTIL \<and>
   js ''123'' \<notin> vip_role (snd (syncFromSheetOptimised
      (scenario_A\<lparr>db := [(js ''123'', \<lparr>vip_until = Some 500, trial_until = Some 500\<rparr>)],
                  vip_role := {js ''123''}, role_cache := {js ''123''}\<rparr>)))"
proof -
  let ?w = "scenario_A\<lparr>db := [(js ''123'', \<lparr>vip_until = Some 500, trial_until = Some 500\<rparr>)],
                  vip_role := {js ''123''}, role_cache := {js ''123''}\<rparr>"
  let ?s = "\<lparr>lifetimeEnsured = 1, lifetimeDowngraded = 0, expiredRemoved = 1, ms = 0,
             totalSheet = 1\<rparr>"
  have "fst (syncFromSheetOptimised ?w) = Inr (Completed ?s)"
    by (simp add: scenario_A_def run_defs)
  then have run: "syncFromSheetOptimised ?w = (Inr (Completed ?s), snd (syncFromSheetOptimised ?w))"
    by (simp add: prod_eq_iff)
  have elig: "getEligibilityMap ?w = Inr [(js ''123'', True)]"
    by (simp add: scenario_A_def run_defs)
  have row: "select_user (db ?w) (js ''123'') = Some \<lparr>vip_until = Some 500, trial_until = Some 500\<rparr>"
    by (simp add: select_user_def)
  from approved_expired_member_after_pass [OF run elig _ _ row]
  show ?thesis
    by (simp add: scenario_A_def or0_def LIFETIME_UNTIL_def)
qed

text \<open>
  The claim as stated has the role absent at the end in every case. The expiry phase
  removes the role only if \<^verbatim>\<open>member.roles.cache.has(role.id)\<close> holds of the cached member
  object, which the grant of the same pass has not changed: in scenario A with a record
  of member 123 that expired at 500, where the member does not hold the role before the
  pass, the member is approved and found, the pass completes and counts the member in
  \<open>expiredRemoved\<close>, the record is at \<open>LIFETIME_UNTIL\<close>, and the member holds the role.
\<close>

theorem approved_expired_member_after_pass_counterexample:
  "getEligibilityMap
      (scenario_A\<lparr>db := [(js ''123'', \<lparr>vip_until = Some 500, trial_until = Some 500\<rparr>)]\<rparr>)
     = Inr [(js ''123'', True)] \<and>
   js ''123'' \<in> guild_members
      (scenario_A\<lparr>db := [(js ''123'', \<lparr>vip_until = Some 500, trial_until = Some 500\<rparr>)]\<rparr>) \<and>
   stored_vip
      (scenario_A\<lparr>db := [(js ''123'', \<lparr>vip_until = Some 500, trial_until = Some 500\<rparr>)]\<rparr>)
      (js ''123'') = 500 \<and>
   clock
      (scenario_A\<lparr>db := [(js ''123'', \<lparr>vip_until = Some 500, trial_until = Some 500\<rparr>)]\<rparr>) 0
     = 1000 \<and>
   fst (syncFromSheetOptimised
      (scenario_A\<lparr>db := [(js ''123'', \<lparr>vip_until = Some 500, trial_until = Some 500\<rparr>)]\<rparr>)) =
     Inr (Completed \<lparr>lifetimeEnsured = 1, lifetimeDowngraded = 0, expiredRemoved = 1,
                      ms = 0, totalSheet = 1\<rparr>) \<and>
   stored_vip (snd (syncFromSheetOptimised
      (scenario_A\<lparr>db := [(js ''123'', \<lparr>vip_until = Some 500, trial_until = Some 500\<rparr>)]\<rparr>)))
      (js ''123'') = LIFETIME_UNTIL \<and>
   js ''123'' \<in> vip_role (snd (syncFromSheetOptimised
      (scenario_A\<lparr>db := [(js ''123'', \<lparr>vip_until = Some 500, trial_until = Some 500\<rparr>)]\<rparr>)))"
  by (simp add: scenario_A_def run_defs)

section \<open>Hourly cleanup\<close>

text \<open>
  Claim C10. The hourly job, once the guild is fetched, does to the world what the
  expiry phase of the pass does on the same rows (the only difference is that the phase
  counts its removals and the job logs an error instead of throwing it); it leaves the
  table as it was; and it neither reads nor writes the lock: with any value of
  \<open>syncRunning\<close> it does the same and leaves that value in place. When the job ends
  without an error, a member found in the guild that has a record with a non-zero
  \<open>vip_until\<close> below \<open>LIFETIME_UNTIL\<close> and not after any clock reading holds the role
  afterwards exactly when the member held it before and the removal was not made: the
  cached member object did not list the role (which is how the source reads "if held")
  or the platform rejected the removal. So if the cached object lists the role and the
  platform accepts the removal, the member is left without the role. A member with no
  such record keeps the role state it had.
\<close>

theorem hourly_cleanup_is_expiry_phase:
  "hourly_cleanup w =
     (if guild_ok w then logged (expiry_loop (db w) n w) else (Some GuildFetchFailed, w)) \<and>
   db (snd (hourly_cleanup w)) = db w \<and>
   hourly_cleanup (w\<lparr>syncRunning := b\<rparr>) =
     (fst (hourly_cleanup w), (snd (hourly_cleanup w))\<lparr>syncRunning := b\<rparr>) \<and>
   (\<forall>k r. (k, r) \<in> set (db w) \<and> or0 (vip_until r) \<noteq> 0 \<and>
          or0 (vip_until r) < LIFETIME_UNTIL \<and> (\<forall>i. or0 (vip_until r) \<le> clock w i) \<and>
          k \<in> guild_members w \<and> fst (hourly_cleanup w) = None \<longrightarrow>
          (k \<in> vip_role (snd (hourly_cleanup w))) =
            (k \<in> vip_role w \<and> (k \<notin> role_cache w \<or> k \<in> remove_rejected w))) \<and>
   (\<forall>k. (\<forall>r. (k, r) \<in> set (db w) \<longrightarrow>
              or0 (vip_until r) = 0 \<or> LIFETIME_UNTIL \<le> or0 (vip_until r) \<or>
              (\<forall>i. clock w i < or0 (vip_until r))) \<longrightarrow>
        (k \<in> vip_role (snd (hourly_cleanup w))) = (k \<in> vip_role w))"
proof -
  have same: "hourly_cleanup w =
     (if guild_ok w then logged (expiry_loop (db w) n w) else (Some GuildFetchFailed, w))"
    by (simp add: hourly_cleanup_def expiry_loop_cleanup_loop)
  obtain r w' where x: "expiry_loop (db w) n w = (r, w')" by (cases "expiry_loop (db w) n w")
  from expiry_loop_frame [OF x] have "db w' = db w" by simp
  with same x have unchanged: "db (snd (hourly_cleanup w)) = db w"
    by (simp add: logged_def)
  have lock: "hourly_cleanup (w\<lparr>syncRunning := b\<rparr>) =
     (fst (hourly_cleanup w), (snd (hourly_cleanup w))\<lparr>syncRunning := b\<rparr>)"
    by (simp add: hourly_cleanup_def cleanup_loop_lock Let_def)
  have removes: "(k \<in> vip_role (snd (hourly_cleanup w))) =
      (k \<in> vip_role w \<and> (k \<notin> role_cache w \<or> k \<in> remove_rejected w))"
    if "(k, r') \<in> set (db w)" "or0 (vip_until r') \<noteq> 0" "or0 (vip_until r') < LIFETIME_UNTIL"
      "\<forall>i. or0 (vip_until r') \<le> clock w i" "k \<in> guild_members w"
      "fst (hourly_cleanup w) = None" for k r'
  proof -
    from that(6) same have ok: "guild_ok w" by (simp split: if_splits)
    with that(6) same x obtain c where "r = Inr c" by (cases r) (simp_all add: logged_def)
    with x have loop: "expiry_loop (db w) n w = (Inr c, w')" by simp
    have "(k \<in> vip_role w') =
      (k \<in> vip_role w \<and> (k \<notin> role_cache w \<or> k \<in> remove_rejected w))"
    proof (cases "k \<in> role_cache w \<and> k \<notin> remove_rejected w")
      case True
      then have "k \<in> role_cache w" "k \<notin> remove_rejected w" by simp_all
      from expiry_loop_effect [OF loop that(1,2,3,4,5) this] True show ?thesis by simp
    next
      case False
      then have "k \<notin> role_cache w \<or> k \<in> remove_rejected w" by simp
      from expiry_loop_unremoved [OF loop this] this show ?thesis by simp
    qed
    with ok same x show ?thesis by (simp add: logged_def)
  qed
  have keeps: "(k \<in> vip_role (snd (hourly_cleanup w))) = (k \<in> vip_role w)"
    if "\<forall>r. (k, r) \<in> set (db w) \<longrightarrow>
              or0 (vip_until r) = 0 \<or> LIFETIME_UNTIL \<le> or0 (vip_until r) \<or>
              (\<forall>i. clock w i < or0 (vip_until r))" for k
    using expiry_loop_keeps [OF x that] same x by (simp add: logged_def)
  from same unchanged lock removes keeps show ?thesis by blast
qed

theorem hourly_cleanup_is_expiry_phase_witness:
  "hourly_cleanup
     (scenario_A\<lparr>db := [(js ''123'', \<lparr>vip_until = Some 500, trial_until = Some 500\<rparr>)],
                 vip_role := {js ''123''}, role_cache := {js ''123''}, syncRunning := True\<rparr>) =
   logged (expiry_loop [(js ''123'', \<lparr>vip_until = Some 500, trial_until = Some 500\<rparr>)] 0
     (scenario_A\<lparr>db := [(js ''123'', \<lparr>vip_until = Some 500, trial_until = Some 500\<rparr>)],
                 vip_role := {js ''123''}, role_cache := {js ''123''}, syncRunning := True\<rparr>)) \<and>
   vip_role (snd (hourly_cleanup
     (scenario_A\<lparr>db := [(js ''123'', \<lparr>vip_until = Some 500, trial_until = Some 500\<rparr>)],
                 vip_role := {js ''123''}, role_cache := {js ''123''}, syncRunning := True\<rparr>))) = {}"
  using hourly_cleanup_is_expiry_phase [of
     "scenario_A\<lparr>db := [(js ''123'', \<lparr>vip_until = Some 500, trial_until = Some 500\<rparr>)],
                 vip_role := {js ''123''}, role_cache := {js ''123''}, syncRunning := True\<rparr>" 0 True]
  by (simp add: scenario_A_def hourly_cleanup_def logged_def run_defs)

end
